theory Spec2Isabelle
  imports Main "HOL-Library.Multiset" "HOL-Library.Sublist"
begin

section \<open>Memory model\<close>

text \<open>
  The container of \<^verbatim>\<open>TVJ_Forward_List.h\<close> is a chain of heap nodes linked by raw
  pointers. Nodes live in an explicit store, addressed by natural numbers; a pointer is
  an \<open>addr option\<close>, with \<open>None\<close> for \<^verbatim>\<open>nullptr\<close>.
\<close>

type_synonym addr = nat

text \<open>\<^verbatim>\<open>struct Node { Elem data; Node* succ = nullptr; }\<close>\<close>

record 'a Node =
  data :: 'a
  succ :: "addr option"

text \<open>
  The store: \<open>cells h a = None\<close> when nothing is allocated at \<open>a\<close> or the node there has
  been deleted; \<open>brk\<close> is the next address \<^verbatim>\<open>new\<close> hands out; \<open>junk h a\<close> is the
  indeterminate value a default-initialised \<^verbatim>\<open>Elem\<close> has when \<^verbatim>\<open>new Node\<close> places a node
  at \<open>a\<close> (the constructor \<^verbatim>\<open>Node()\<close> does not initialise \<^verbatim>\<open>data\<close>).
\<close>

record 'a heap =
  cells :: "addr \<Rightarrow> 'a Node option"
  brk :: addr
  junk :: "addr \<Rightarrow> 'a"

text \<open>
  The private fields of \<^verbatim>\<open>forward_list\<close>. \<^verbatim>\<open>size_t\<close> is a natural number here: every
  increment of \<^verbatim>\<open>size_\<close> goes with a node that exists, so it cannot overflow; a
  decrement below zero wraps modulo \<open>2^64\<close> and is written out in \<open>size_sub\<close>.
\<close>

record forward_list =
  head :: "addr option"
  tail :: "addr option"
  size_fl :: nat

definition size_sub :: "nat \<Rightarrow> nat \<Rightarrow> nat" where
  "size_sub n k = (if k \<le> n then n - k else n + 2 ^ 64 - k)"

text \<open>The error codes of \<^verbatim>\<open>enum TVJ_FORWARD_LIST_EXCEPTION\<close>, thrown by \<^verbatim>\<open>error_info\<close>.\<close>

datatype TVJ_FORWARD_LIST_EXCEPTION =
    TVJ_FORWARD_LIST_UNDERFLOW
  | TVJ_FORWARD_LIST_OVERFLOW
  | TVJ_FORWARD_LIST_TYPE_MISMATCH
  | TVJ_FORWARD_LIST_NULLPTR
  | TVJ_FORWARD_LIST_ITER_RANGE

text \<open>
  A call that does not complete normally either throws one of the exceptions above
  (only when \<^verbatim>\<open>NDEBUG\<close> is not defined) or dereferences or deletes a pointer that is
  null or refers to a deleted node, which is undefined behaviour in C++.
\<close>

datatype failure = Thrown TVJ_FORWARD_LIST_EXCEPTION | Invalid_Access

text \<open>Sequencing of steps that may fail; the second form is for calls that contain loops,
  where \<open>None\<close> stands for a loop that never ends.\<close>

definition bnd :: "failure + 'a \<Rightarrow> ('a \<Rightarrow> failure + 'b) \<Rightarrow> failure + 'b" where
  "bnd m f = (case m of Inl e \<Rightarrow> Inl e | Inr x \<Rightarrow> f x)"

definition obnd :: "(failure + 'a) option \<Rightarrow> ('a \<Rightarrow> (failure + 'b) option) \<Rightarrow> (failure + 'b) option" where
  "obnd m f = (case m of None \<Rightarrow> None | Some (Inl e) \<Rightarrow> Some (Inl e) | Some (Inr x) \<Rightarrow> f x)"

definition ok :: "'a \<Rightarrow> (failure + 'a) option" where
  "ok x = Some (Inr x)"

lemma obnd_mono [partial_function_mono]:
  assumes mf: "mono_option B" and mg: "\<And>y. mono_option (\<lambda>f. C y f)"
  shows "mono_option (\<lambda>f. obnd (B f) (\<lambda>y. C y f))"
proof -
  have eq: "\<And>m g. obnd m g = Option.bind m (\<lambda>r. case r of Inl e \<Rightarrow> Some (Inl e) | Inr x \<Rightarrow> g x)"
    by (simp add: obnd_def split: option.splits sum.splits)
  have inner: "mono_option (\<lambda>f. case r of Inl e \<Rightarrow> Some (Inl e) | Inr x \<Rightarrow> C x f)" for r
    by (cases r) (simp_all add: mg partial_function_mono)
  show ?thesis
    unfolding eq by (rule bind_mono [OF mf inner])
qed

subsection \<open>Loads, stores, allocation\<close>

text \<open>\<^verbatim>\<open>*p\<close> for a node pointer \<open>p\<close>.\<close>

definition load :: "'a heap \<Rightarrow> addr option \<Rightarrow> failure + 'a Node" where
  "load h p = (case p of None \<Rightarrow> Inl Invalid_Access
               | Some a \<Rightarrow> (case cells h a of None \<Rightarrow> Inl Invalid_Access | Some n \<Rightarrow> Inr n))"

text \<open>\<^verbatim>\<open>p->data = v\<close> and \<^verbatim>\<open>p->succ = q\<close>.\<close>

definition store_data :: "'a heap \<Rightarrow> addr option \<Rightarrow> 'a \<Rightarrow> failure + 'a heap" where
  "store_data h p v = (case p of None \<Rightarrow> Inl Invalid_Access
     | Some a \<Rightarrow> (case cells h a of None \<Rightarrow> Inl Invalid_Access
         | Some n \<Rightarrow> Inr (h\<lparr>cells := (cells h)(a \<mapsto> n\<lparr>data := v\<rparr>)\<rparr>)))"

definition store_succ :: "'a heap \<Rightarrow> addr option \<Rightarrow> addr option \<Rightarrow> failure + 'a heap" where
  "store_succ h p q = (case p of None \<Rightarrow> Inl Invalid_Access
     | Some a \<Rightarrow> (case cells h a of None \<Rightarrow> Inl Invalid_Access
         | Some n \<Rightarrow> Inr (h\<lparr>cells := (cells h)(a \<mapsto> n\<lparr>succ := q\<rparr>)\<rparr>)))"

text \<open>\<^verbatim>\<open>new Node\<close>: a fresh node with indeterminate data and a null successor.\<close>

definition new_Node :: "'a heap \<Rightarrow> addr \<times> 'a heap" where
  "new_Node h = (brk h,
     h\<lparr>cells := (cells h)(brk h \<mapsto> \<lparr>data = junk h (brk h), succ = None\<rparr>), brk := Suc (brk h)\<rparr>)"

text \<open>\<^verbatim>\<open>delete p\<close>; deleting a null pointer does nothing.\<close>

definition delete_Node :: "'a heap \<Rightarrow> addr option \<Rightarrow> failure + 'a heap" where
  "delete_Node h p = (case p of None \<Rightarrow> Inr h
     | Some a \<Rightarrow> (if cells h a = None then Inl Invalid_Access
                  else Inr (h\<lparr>cells := (cells h)(a := None)\<rparr>)))"

section \<open>The iterator family\<close>

text \<open>
  A \<^verbatim>\<open>const_iterator\<close> holds \<^verbatim>\<open>node\<close> and \<^verbatim>\<open>parent\<close>. Every iterator the member
  functions step or dereference is one they made from \<^verbatim>\<open>this\<close>, so the cursor is its
  node pointer and the operators take the parent list. The flag \<open>ndebug\<close> says whether
  \<^verbatim>\<open>NDEBUG\<close> is defined (the fast build); the checks are compiled in when it is not.
\<close>

text \<open>\<^verbatim>\<open>operator*\<close>\<close>

definition it_deref :: "bool \<Rightarrow> 'a heap \<Rightarrow> forward_list \<Rightarrow> addr option \<Rightarrow> failure + 'a" where
  "it_deref ndebug h l node =
     (if \<not> ndebug \<and> node = None then Inl (Thrown TVJ_FORWARD_LIST_NULLPTR)
      else if \<not> ndebug \<and> node = head l then Inl (Thrown TVJ_FORWARD_LIST_UNDERFLOW)
      else if \<not> ndebug \<and> node = tail l then Inl (Thrown TVJ_FORWARD_LIST_OVERFLOW)
      else bnd (load h node) (\<lambda>n. Inr (data n)))"

text \<open>\<^verbatim>\<open>operator++\<close>, prefix and postfix: the new node pointer.\<close>

definition it_incr :: "bool \<Rightarrow> 'a heap \<Rightarrow> forward_list \<Rightarrow> addr option \<Rightarrow> failure + addr option" where
  "it_incr ndebug h l node =
     (if \<not> ndebug \<and> node = None then Inl (Thrown TVJ_FORWARD_LIST_NULLPTR)
      else if \<not> ndebug \<and> node = tail l then Inl (Thrown TVJ_FORWARD_LIST_OVERFLOW)
      else bnd (load h node) (\<lambda>n. Inr (succ n)))"

text \<open>
  \<^verbatim>\<open>operator+\<close>: the checks inside its loop test \<^verbatim>\<open>node\<close>, which the loop does not
  change, so they repeat the two checks at entry; the loop itself follows \<^verbatim>\<open>_node->succ\<close>
  \<open>k\<close> times with no check.
\<close>

fun walk :: "'a heap \<Rightarrow> addr option \<Rightarrow> nat \<Rightarrow> failure + addr option" where
  "walk h node 0 = Inr node"
| "walk h node (Suc k) = bnd (load h node) (\<lambda>n. walk h (succ n) k)"

definition it_plus :: "bool \<Rightarrow> 'a heap \<Rightarrow> forward_list \<Rightarrow> addr option \<Rightarrow> nat \<Rightarrow> failure + addr option" where
  "it_plus ndebug h l node k =
     (if \<not> ndebug \<and> node = None then Inl (Thrown TVJ_FORWARD_LIST_NULLPTR)
      else if \<not> ndebug \<and> node = tail l then Inl (Thrown TVJ_FORWARD_LIST_OVERFLOW)
      else walk h node k)"

section \<open>The list\<close>

text \<open>The default constructor: \<^verbatim>\<open>head = new Node; tail = head->succ = new Node; size_ = 0\<close>.\<close>

definition init_list :: "'a heap \<Rightarrow> failure + 'a heap \<times> forward_list" where
  "init_list h =
     (case new_Node h of (hp, h1) \<Rightarrow>
      case new_Node h1 of (tp, h2) \<Rightarrow>
      bnd (store_succ h2 (Some hp) (Some tp)) (\<lambda>h3.
      Inr (h3, \<lparr>head = Some hp, tail = Some tp, size_fl = 0\<rparr>)))"

definition empty_fl :: "forward_list \<Rightarrow> bool" where
  "empty_fl l = (size_fl l = 0)"

definition cbefore_begin :: "forward_list \<Rightarrow> addr option" where
  "cbefore_begin l = head l"

definition cend :: "forward_list \<Rightarrow> addr option" where
  "cend l = tail l"

text \<open>\<^verbatim>\<open>begin\<close>, \<^verbatim>\<open>cbegin\<close>, \<^verbatim>\<open>front\<close>: the node \<^verbatim>\<open>head->succ\<close>.\<close>

definition cbegin :: "'a heap \<Rightarrow> forward_list \<Rightarrow> failure + addr option" where
  "cbegin h l = bnd (load h (head l)) (\<lambda>n. Inr (succ n))"

text \<open>\<^verbatim>\<open>push_back\<close>\<close>

definition push_back :: "'a heap \<Rightarrow> forward_list \<Rightarrow> 'a \<Rightarrow> failure + 'a heap \<times> forward_list" where
  "push_back h l elem =
     bnd (store_data h (tail l) elem) (\<lambda>h1.
     case new_Node h1 of (p, h2) \<Rightarrow>
     bnd (store_succ h2 (tail l) (Some p)) (\<lambda>h3.
     bnd (store_succ h3 (Some p) None) (\<lambda>h4.
     Inr (h4, l\<lparr>tail := Some p, size_fl := size_fl l + 1\<rparr>))))"

text \<open>\<^verbatim>\<open>pop_front\<close>\<close>

definition pop_front :: "'a heap \<Rightarrow> forward_list \<Rightarrow> failure + 'a heap \<times> forward_list" where
  "pop_front h l =
     (if empty_fl l then Inr (h, l)
      else bnd (load h (head l)) (\<lambda>n.
           Inr (h, l\<lparr>head := succ n, size_fl := size_sub (size_fl l) 1\<rparr>)))"

text \<open>
  What a range-based \<^verbatim>\<open>for\<close> over the list yields, as in \<^verbatim>\<open>printForwardList\<close> of
  \<^verbatim>\<open>Sample.cpp\<close>: \<^verbatim>\<open>for (it = begin(), e = end(); it != e; ++it) use(*it)\<close>.
\<close>

partial_function (option) iterate ::
  "bool \<Rightarrow> 'a heap \<Rightarrow> forward_list \<Rightarrow> addr option \<Rightarrow> addr option \<Rightarrow> 'a list \<Rightarrow> (failure + 'a list) option" where
  "iterate ndebug h l it e acc =
     (if it \<noteq> e then
        obnd (Some (it_deref ndebug h l it)) (\<lambda>v.
        obnd (Some (it_incr ndebug h l it)) (\<lambda>it'.
        iterate ndebug h l it' e (acc @ [v])))
      else ok acc)"

declare iterate.simps [code]

definition to_list :: "bool \<Rightarrow> 'a heap \<Rightarrow> forward_list \<Rightarrow> (failure + 'a list) option" where
  "to_list ndebug h l = obnd (Some (cbegin h l)) (\<lambda>b. iterate ndebug h l b (cend l) [])"


text \<open>\<^verbatim>\<open>pop_back\<close>: the scan \<^verbatim>\<open>while (i + 2 != cend()) i++;\<close> and the unlinking.\<close>

partial_function (option) pop_back_scan ::
  "bool \<Rightarrow> 'a heap \<Rightarrow> forward_list \<Rightarrow> addr option \<Rightarrow> (failure + addr option) option" where
  "pop_back_scan ndebug h l i =
     obnd (Some (it_plus ndebug h l i 2)) (\<lambda>i2.
     if i2 \<noteq> cend l then
       obnd (Some (it_incr ndebug h l i)) (\<lambda>i'. pop_back_scan ndebug h l i')
     else ok i)"

declare pop_back_scan.simps [code]

definition pop_back :: "bool \<Rightarrow> 'a heap \<Rightarrow> forward_list \<Rightarrow> (failure + 'a heap \<times> forward_list) option" where
  "pop_back ndebug h l =
     (if empty_fl l then ok (h, l)
      else
        obnd (pop_back_scan ndebug h l (cbefore_begin l)) (\<lambda>i.
        Some (bnd (load h i) (\<lambda>n.
              bnd (store_succ h i (tail l)) (\<lambda>h1.
              bnd (delete_Node h1 (succ n)) (\<lambda>h2.
              Inr (h2, l\<lparr>size_fl := size_sub (size_fl l) 1\<rparr>)))))))"

text \<open>
  \<^verbatim>\<open>back()\<close>, the overload of a mutable list:
  \<^verbatim>\<open>auto i = before_begin(); while (i + 1 != end()) i++; return i;\<close>
\<close>

partial_function (option) back_scan ::
  "bool \<Rightarrow> 'a heap \<Rightarrow> forward_list \<Rightarrow> addr option \<Rightarrow> (failure + addr option) option" where
  "back_scan ndebug h l i =
     obnd (Some (it_plus ndebug h l i 1)) (\<lambda>i1.
     if i1 \<noteq> cend l then
       obnd (Some (it_incr ndebug h l i)) (\<lambda>i'. back_scan ndebug h l i')
     else ok i)"

declare back_scan.simps [code]

definition back_mutable :: "bool \<Rightarrow> 'a heap \<Rightarrow> forward_list \<Rightarrow> (failure + addr option) option" where
  "back_mutable ndebug h l = back_scan ndebug h l (cbefore_begin l)"

text \<open>\<^verbatim>\<open>back() const\<close>, the overload of a const list: \<^verbatim>\<open>return iterator(head->succ, this);\<close>\<close>

definition back_const :: "'a heap \<Rightarrow> forward_list \<Rightarrow> failure + addr option" where
  "back_const h l = bnd (load h (head l)) (\<lambda>n. Inr (succ n))"

text \<open>
  \<^verbatim>\<open>search(elem, is_ascending)\<close>. \<^verbatim>\<open>*(iter + 1)\<close> is \<^verbatim>\<open>operator+\<close> followed by
  \<^verbatim>\<open>operator*\<close>; \<^verbatim>\<open>&&\<close> evaluates its right operand only when the left one holds.
\<close>

definition deref_plus :: "bool \<Rightarrow> 'a heap \<Rightarrow> forward_list \<Rightarrow> addr option \<Rightarrow> nat \<Rightarrow> failure + 'a" where
  "deref_plus ndebug h l node k = bnd (it_plus ndebug h l node k) (it_deref ndebug h l)"

partial_function (option) search_loop ::
  "bool \<Rightarrow> ('a::linorder) heap \<Rightarrow> forward_list \<Rightarrow> 'a \<Rightarrow> bool \<Rightarrow> addr option \<Rightarrow> (failure + addr option) option" where
  "search_loop ndebug h l elem is_ascending iter =
     obnd (Some (it_plus ndebug h l iter 1)) (\<lambda>i1.
     if i1 \<noteq> cend l then
       obnd (Some (deref_plus ndebug h l iter 1)) (\<lambda>v.
       if (if is_ascending then v \<ge> elem else v \<le> elem) then
         obnd (Some (it_incr ndebug h l iter)) (\<lambda>iter'.
         search_loop ndebug h l elem is_ascending iter')
       else ok iter)
     else ok iter)"

declare search_loop.simps [code]

definition search ::
  "bool \<Rightarrow> ('a::linorder) heap \<Rightarrow> forward_list \<Rightarrow> 'a \<Rightarrow> bool \<Rightarrow> (failure + addr option) option" where
  "search ndebug h l elem is_ascending =
     obnd (Some (deref_plus ndebug h l (cbefore_begin l) 1)) (\<lambda>v.
     if (if is_ascending then v < elem else v > elem) then ok (cbefore_begin l)
     else search_loop ndebug h l elem is_ascending (cbefore_begin l))"

text \<open>\<^verbatim>\<open>sorted(is_ascending)\<close>\<close>

partial_function (option) sorted_loop ::
  "bool \<Rightarrow> ('a::linorder) heap \<Rightarrow> forward_list \<Rightarrow> bool \<Rightarrow> addr option \<Rightarrow> (failure + bool) option" where
  "sorted_loop ndebug h l is_ascending iter =
     obnd (Some (it_plus ndebug h l iter 1)) (\<lambda>i1.
     if i1 \<noteq> cend l then
       obnd (Some (it_deref ndebug h l iter)) (\<lambda>a.
       obnd (Some (deref_plus ndebug h l iter 1)) (\<lambda>b.
       if a = b then
         obnd (Some (it_incr ndebug h l iter)) (\<lambda>iter'.
         sorted_loop ndebug h l is_ascending iter')
       else if (a < b) \<noteq> is_ascending then ok False
       else
         obnd (Some (it_incr ndebug h l iter)) (\<lambda>iter'.
         sorted_loop ndebug h l is_ascending iter')))
     else ok True)"

declare sorted_loop.simps [code]

definition sorted_fl :: "bool \<Rightarrow> ('a::linorder) heap \<Rightarrow> forward_list \<Rightarrow> bool \<Rightarrow> (failure + bool) option" where
  "sorted_fl ndebug h l is_ascending =
     (if size_fl l < 2 then ok True
      else obnd (Some (cbegin h l)) (\<lambda>b. sorted_loop ndebug h l is_ascending b))"

text \<open>
  \<^verbatim>\<open>remove_at(iter, ok)\<close>: the result is the returned element, the value left in
  \<^verbatim>\<open>*ok\<close>, and the new state. Of the cursor \<^verbatim>\<open>iter\<close> only its node is used.
\<close>

partial_function (option) remove_at_loop ::
  "bool \<Rightarrow> 'a heap \<Rightarrow> forward_list \<Rightarrow> addr option \<Rightarrow> addr option \<Rightarrow>
     (failure + 'a \<times> bool \<times> 'a heap \<times> forward_list) option" where
  "remove_at_loop ndebug h l iter i =
     obnd (Some (it_plus ndebug h l i 1)) (\<lambda>i1.
     if i1 \<noteq> cend l then
       (if i1 \<noteq> iter then
          obnd (Some (it_incr ndebug h l i)) (\<lambda>i'. remove_at_loop ndebug h l iter i')
        else
          Some (bnd (deref_plus ndebug h l i 1) (\<lambda>ret.
                bnd (load h i1) (\<lambda>n1.
                bnd (store_succ h i (succ n1)) (\<lambda>h1.
                Inr (ret, True, h1, l\<lparr>size_fl := size_sub (size_fl l) 1\<rparr>))))))
     else Some (bnd (load h (tail l)) (\<lambda>n. Inr (data n, False, h, l))))"

declare remove_at_loop.simps [code]

definition remove_at ::
  "bool \<Rightarrow> 'a heap \<Rightarrow> forward_list \<Rightarrow> addr option \<Rightarrow> (failure + 'a \<times> bool \<times> 'a heap \<times> forward_list) option" where
  "remove_at ndebug h l iter = remove_at_loop ndebug h l iter (cbefore_begin l)"

text \<open>
  \<^verbatim>\<open>erase_after(iter1)\<close>. The inner loop
  \<^verbatim>\<open>while (j.node && j != iter2) { to_delete = j.node; ++j; delete to_delete; tmp_size++; }\<close>
  deletes only when \<^verbatim>\<open>NDEBUG\<close> is defined.
\<close>

partial_function (option) erase_walk ::
  "bool \<Rightarrow> 'a heap \<Rightarrow> forward_list \<Rightarrow> addr option \<Rightarrow> addr option \<Rightarrow> nat \<Rightarrow>
     (failure + addr option \<times> nat \<times> 'a heap) option" where
  "erase_walk ndebug h l j iter2 tmp_size =
     (if j \<noteq> None \<and> j \<noteq> iter2 then
        obnd (Some (it_incr ndebug h l j)) (\<lambda>j'.
        obnd (Some (if ndebug then delete_Node h j else Inr h)) (\<lambda>h'.
        erase_walk ndebug h' l j' iter2 (tmp_size + 1)))
      else ok (j, tmp_size, h))"

declare erase_walk.simps [code]

partial_function (option) erase_after_loop ::
  "bool \<Rightarrow> 'a heap \<Rightarrow> forward_list \<Rightarrow> addr option \<Rightarrow> addr option \<Rightarrow>
     (failure + 'a heap \<times> forward_list) option" where
  "erase_after_loop ndebug h l iter1 i =
     obnd (Some (it_plus ndebug h l i 1)) (\<lambda>i1.
     if i1 \<noteq> cend l then
       (if i1 \<noteq> iter1 then
          obnd (Some (it_incr ndebug h l i)) (\<lambda>i'. erase_after_loop ndebug h l iter1 i')
        else
          obnd (erase_walk ndebug h l i1 (cend l) 0) (\<lambda>(j, tmp_size, h1).
          Some (bnd (store_succ h1 i j) (\<lambda>h2.
                Inr (h2, l\<lparr>size_fl := size_sub (size_fl l) tmp_size\<rparr>)))))
     else ok (h, l))"

declare erase_after_loop.simps [code]

definition erase_after ::
  "bool \<Rightarrow> 'a heap \<Rightarrow> forward_list \<Rightarrow> addr option \<Rightarrow> (failure + 'a heap \<times> forward_list) option" where
  "erase_after ndebug h l iter1 =
     (if empty_fl l then ok (h, l)
      else erase_after_loop ndebug h l iter1 (cbefore_begin l))"

text \<open>
  \<^verbatim>\<open>erase_after(iter1, iter2)\<close>, with the inner loop
  \<^verbatim>\<open>while (j != iter2 && j != cend())\<close>. In \<^verbatim>\<open>if (i.node && i + 1 != iter1) continue;\<close>
  the node of \<open>i\<close> is not null, since \<^verbatim>\<open>i + 1\<close> has just been computed.
\<close>

partial_function (option) erase_walk2 ::
  "bool \<Rightarrow> 'a heap \<Rightarrow> forward_list \<Rightarrow> addr option \<Rightarrow> addr option \<Rightarrow> nat \<Rightarrow>
     (failure + addr option \<times> nat \<times> 'a heap) option" where
  "erase_walk2 ndebug h l j iter2 tmp_size =
     (if j \<noteq> iter2 \<and> j \<noteq> cend l then
        obnd (Some (it_incr ndebug h l j)) (\<lambda>j'.
        obnd (Some (if ndebug then delete_Node h j else Inr h)) (\<lambda>h'.
        erase_walk2 ndebug h' l j' iter2 (tmp_size + 1)))
      else ok (j, tmp_size, h))"

declare erase_walk2.simps [code]

partial_function (option) erase_after2_loop ::
  "bool \<Rightarrow> 'a heap \<Rightarrow> forward_list \<Rightarrow> addr option \<Rightarrow> addr option \<Rightarrow> addr option \<Rightarrow>
     (failure + 'a heap \<times> forward_list) option" where
  "erase_after2_loop ndebug h l iter1 iter2 i =
     obnd (Some (it_plus ndebug h l i 1)) (\<lambda>i1.
     if i1 \<noteq> cend l then
       (if i \<noteq> None \<and> i1 \<noteq> iter1 then
          obnd (Some (it_incr ndebug h l i)) (\<lambda>i'. erase_after2_loop ndebug h l iter1 iter2 i')
        else
          obnd (erase_walk2 ndebug h l i1 iter2 0) (\<lambda>(j, tmp_size, h1).
          Some (bnd (store_succ h1 i j) (\<lambda>h2.
                Inr (h2, l\<lparr>size_fl := size_sub (size_fl l) tmp_size\<rparr>)))))
     else ok (h, l))"

declare erase_after2_loop.simps [code]

definition erase_after2 ::
  "bool \<Rightarrow> 'a heap \<Rightarrow> forward_list \<Rightarrow> addr option \<Rightarrow> addr option \<Rightarrow>
     (failure + 'a heap \<times> forward_list) option" where
  "erase_after2 ndebug h l iter1 iter2 =
     (if empty_fl l then ok (h, l)
      else erase_after2_loop ndebug h l iter1 iter2 (cbefore_begin l))"

text \<open>\<^verbatim>\<open>clear()\<close>: \<^verbatim>\<open>erase_after(cbegin());\<close>\<close>

definition clear :: "bool \<Rightarrow> 'a heap \<Rightarrow> forward_list \<Rightarrow> (failure + 'a heap \<times> forward_list) option" where
  "clear ndebug h l = obnd (Some (cbegin h l)) (\<lambda>b. erase_after ndebug h l b)"

text \<open>
  The destructor: \<^verbatim>\<open>erase_after(cbegin());\<close> and, when \<^verbatim>\<open>NDEBUG\<close> is defined,
  \<^verbatim>\<open>if (head) delete head; if (tail) delete tail;\<close>. The result is the store it leaves.
\<close>

definition destroy :: "bool \<Rightarrow> 'a heap \<Rightarrow> forward_list \<Rightarrow> (failure + 'a heap) option" where
  "destroy ndebug h l =
     obnd (clear ndebug h l) (\<lambda>(h1, l1).
     if ndebug then
       Some (bnd (delete_Node h1 (head l1)) (\<lambda>h2. delete_Node h2 (tail l1)))
     else ok h1)"


section \<open>The merge-sort engine\<close>

text \<open>
  \<^verbatim>\<open>_sort2(first, is_ascending)\<close> swaps the data of the two nodes after \<^verbatim>\<open>first\<close> when
  \<^verbatim>\<open>is_ascending ^ (first->succ->data < first->succ->succ->data)\<close>, and returns
  \<^verbatim>\<open>first->succ->succ\<close>. The two stores change no link, so the pointers read before
  them are the ones the source reads again.
\<close>

definition sort2 :: "('a::linorder) heap \<Rightarrow> addr option \<Rightarrow> bool \<Rightarrow> failure + addr option \<times> 'a heap" where
  "sort2 h first is_ascending =
     bnd (load h first) (\<lambda>n0.
     bnd (load h (succ n0)) (\<lambda>a.
     bnd (load h (succ a)) (\<lambda>b.
     if is_ascending \<noteq> (data a < data b) then
       bnd (store_data h (succ n0) (data b)) (\<lambda>h1.
       bnd (store_data h1 (succ a) (data a)) (\<lambda>h2.
       Inr (succ a, h2)))
     else Inr (succ a, h))))"

text \<open>
  \<^verbatim>\<open>_inplace_merge(first_, mid_, last_, is_ascending)\<close>. The three loop conditions read
  \<^verbatim>\<open>mid_->succ\<close> and \<^verbatim>\<open>last_->succ\<close> afresh at every test. One step
  \<^verbatim>\<open>h = h->succ = x; x = x->succ;\<close> is \<open>take_node\<close>. The parameters \<^verbatim>\<open>first_\<close>, \<^verbatim>\<open>mid_\<close>
  and \<^verbatim>\<open>last_\<close> are \<open>firstp\<close>, \<open>midp\<close> and \<open>lastp\<close>; the assignment \<^verbatim>\<open>h = pre_end\<close> after
  the loops changes a local variable only.
\<close>

definition take_node :: "'a heap \<Rightarrow> addr option \<Rightarrow> addr option \<Rightarrow> failure + 'a heap \<times> addr option" where
  "take_node h hh x =
     bnd (store_succ h hh x) (\<lambda>h1.
     bnd (load h1 x) (\<lambda>n. Inr (h1, succ n)))"

definition differs_from_succ :: "'a heap \<Rightarrow> addr option \<Rightarrow> addr option \<Rightarrow> failure + bool" where
  "differs_from_succ h x m =
     (if x = None then Inr False else bnd (load h m) (\<lambda>n. Inr (x \<noteq> succ n)))"

partial_function (option) inplace_merge_loop1 ::
  "('a::linorder) heap \<Rightarrow> addr option \<Rightarrow> addr option \<Rightarrow> bool \<Rightarrow> addr option \<Rightarrow> addr option \<Rightarrow> addr option \<Rightarrow>
     (failure + 'a heap \<times> addr option \<times> addr option \<times> addr option) option" where
  "inplace_merge_loop1 h midp lastp is_ascending i j hh =
     obnd (Some (bnd (differs_from_succ h i midp) (\<lambda>c. if c then differs_from_succ h j lastp else Inr False))) (\<lambda>c.
     if c then
       obnd (Some (load h i)) (\<lambda>ni.
       obnd (Some (load h j)) (\<lambda>nj.
       if (data ni < data nj) \<noteq> (\<not> is_ascending) then
         obnd (Some (take_node h hh i)) (\<lambda>(h1, i').
         inplace_merge_loop1 h1 midp lastp is_ascending i' j i)
       else
         obnd (Some (take_node h hh j)) (\<lambda>(h1, j').
         inplace_merge_loop1 h1 midp lastp is_ascending i j' j)))
     else ok (h, i, j, hh))"

declare inplace_merge_loop1.simps [code]

partial_function (option) inplace_merge_loop2 ::
  "'a heap \<Rightarrow> addr option \<Rightarrow> addr option \<Rightarrow> addr option \<Rightarrow> (failure + 'a heap \<times> addr option) option" where
  "inplace_merge_loop2 h m x hh =
     obnd (Some (differs_from_succ h x m)) (\<lambda>c.
     if c then
       obnd (Some (take_node h hh x)) (\<lambda>(h1, x'). inplace_merge_loop2 h1 m x' x)
     else ok (h, hh))"

declare inplace_merge_loop2.simps [code]

definition inplace_merge ::
  "('a::linorder) heap \<Rightarrow> addr option \<Rightarrow> addr option \<Rightarrow> addr option \<Rightarrow> bool \<Rightarrow>
     (failure + addr option \<times> 'a heap) option" where
  "inplace_merge h firstp midp lastp is_ascending =
     obnd (Some (load h firstp)) (\<lambda>nf.
     obnd (Some (load h midp)) (\<lambda>nm.
     obnd (Some (load h lastp)) (\<lambda>nl.
     obnd (inplace_merge_loop1 h midp lastp is_ascending (succ nf) (succ nm) firstp) (\<lambda>(h1, i, j, hh).
     obnd (inplace_merge_loop2 h1 midp i hh) (\<lambda>(h2, hh2).
     obnd (inplace_merge_loop2 h2 lastp j hh2) (\<lambda>(h3, hh3).
     obnd (Some (load h3 lastp)) (\<lambda>nl3.
     obnd (Some (load h3 midp)) (\<lambda>nm3.
     ok (if (data nl3 < data nm3) \<noteq> (\<not> is_ascending) then midp else lastp, h3)))))))))"

text \<open>\<^verbatim>\<open>_sort(first, bound, is_ascending)\<close>\<close>

fun sort_rec :: "('a::linorder) heap \<Rightarrow> addr option \<Rightarrow> nat \<Rightarrow> bool \<Rightarrow> (failure + addr option \<times> 'a heap) option" where
  "sort_rec h first bound is_ascending =
     (if bound = 0 then ok (None, h)
      else if bound = 1 then Some (bnd (load h first) (\<lambda>n. Inr (succ n, h)))
      else if bound = 2 then Some (sort2 h first is_ascending)
      else
        obnd (sort_rec h first (bound div 2) is_ascending) (\<lambda>(mid_node, h1).
        obnd (sort_rec h1 mid_node (bound - bound div 2) is_ascending) (\<lambda>(last_node, h2).
        inplace_merge h2 first mid_node last_node is_ascending)))"

text \<open>\<^verbatim>\<open>sort(is_ascending)\<close>: \<^verbatim>\<open>_sort(head, size_, is_ascending);\<close>\<close>

definition sort_fl :: "('a::linorder) heap \<Rightarrow> forward_list \<Rightarrow> bool \<Rightarrow> (failure + 'a heap \<times> forward_list) option" where
  "sort_fl h l is_ascending =
     obnd (sort_rec h (head l) (size_fl l) is_ascending) (\<lambda>(r, h1). ok (h1, l))"


section \<open>unique and merge\<close>

text \<open>
  \<^verbatim>\<open>unique()\<close>. The inner loop
  \<^verbatim>\<open>while (i != cend() && *i == *(i + 1)) { tmp = (i + 1).node; i.node->succ = (i + 2).node->succ; delete tmp; size_--; }\<close>
\<close>

partial_function (option) unique_while ::
  "bool \<Rightarrow> 'a heap \<Rightarrow> forward_list \<Rightarrow> addr option \<Rightarrow> (failure + 'a heap \<times> forward_list) option" where
  "unique_while ndebug h l i =
     (if i \<noteq> cend l then
        obnd (Some (it_deref ndebug h l i)) (\<lambda>a.
        obnd (Some (deref_plus ndebug h l i 1)) (\<lambda>b.
        if a = b then
          obnd (Some (it_plus ndebug h l i 1)) (\<lambda>tmp.
          obnd (Some (it_plus ndebug h l i 2)) (\<lambda>i2.
          obnd (Some (load h i2)) (\<lambda>n2.
          obnd (Some (store_succ h i (succ n2))) (\<lambda>h1.
          obnd (Some (delete_Node h1 tmp)) (\<lambda>h2.
          unique_while ndebug h2 (l\<lparr>size_fl := size_sub (size_fl l) 1\<rparr>) i)))))
        else ok (h, l)))
      else ok (h, l))"

declare unique_while.simps [code]

text \<open>The outer loop \<^verbatim>\<open>for (; i != cend() && i + 1 != cend() && i + 2 != cend(); i++)\<close>.\<close>

definition unique_for_cond :: "bool \<Rightarrow> 'a heap \<Rightarrow> forward_list \<Rightarrow> addr option \<Rightarrow> failure + bool" where
  "unique_for_cond ndebug h l i =
     (if i \<noteq> cend l then
        bnd (it_plus ndebug h l i 1) (\<lambda>i1.
        if i1 \<noteq> cend l then bnd (it_plus ndebug h l i 2) (\<lambda>i2. Inr (i2 \<noteq> cend l))
        else Inr False)
      else Inr False)"

partial_function (option) unique_for ::
  "bool \<Rightarrow> 'a heap \<Rightarrow> forward_list \<Rightarrow> addr option \<Rightarrow> (failure + addr option \<times> 'a heap \<times> forward_list) option" where
  "unique_for ndebug h l i =
     obnd (Some (unique_for_cond ndebug h l i)) (\<lambda>c.
     if c then
       obnd (unique_while ndebug h l i) (\<lambda>(h1, l1).
       obnd (Some (it_incr ndebug h1 l1 i)) (\<lambda>i'.
       unique_for ndebug h1 l1 i'))
     else ok (i, h, l))"

declare unique_for.simps [code]

text \<open>
  When \<^verbatim>\<open>NDEBUG\<close> is not defined, \<^verbatim>\<open>unique\<close> and \<^verbatim>\<open>merge\<close> first run
  \<^verbatim>\<open>if (!sorted(o)) sort(o);\<close>
\<close>

definition ensure_sorted ::
  "('a::linorder) heap \<Rightarrow> forward_list \<Rightarrow> forward_list \<Rightarrow> bool \<Rightarrow> (failure + 'a heap) option" where
  "ensure_sorted h checked target is_ascending =
     obnd (sorted_fl False h checked is_ascending) (\<lambda>s.
     if \<not> s then obnd (sort_fl h target is_ascending) (\<lambda>(h1, l1). ok h1) else ok h)"

definition unique :: "bool \<Rightarrow> ('a::linorder) heap \<Rightarrow> forward_list \<Rightarrow> (failure + 'a heap \<times> forward_list) option" where
  "unique ndebug h l =
     (if size_fl l < 2 then ok (h, l)
      else
        obnd (if \<not> ndebug then ensure_sorted h l l True else ok h) (\<lambda>h0.
        obnd (Some (cbegin h0 l)) (\<lambda>b.
        obnd (unique_for ndebug h0 l b) (\<lambda>(i, h1, l1).
        obnd (Some (it_deref ndebug h1 l1 i)) (\<lambda>a.
        obnd (Some (deref_plus ndebug h1 l1 i 1)) (\<lambda>b.
        if a = b then pop_back ndebug h1 l1 else ok (h1, l1)))))))"

text \<open>
  The copy \<^verbatim>\<open>forward_list<Elem> new_list = list_;\<close> made by \<^verbatim>\<open>link\<close> and \<^verbatim>\<open>merge\<close>: a new
  empty list and \<^verbatim>\<open>for (const auto& elem : list_) push_back(elem);\<close>
\<close>

partial_function (option) copy_loop ::
  "bool \<Rightarrow> 'a heap \<Rightarrow> forward_list \<Rightarrow> forward_list \<Rightarrow> addr option \<Rightarrow> addr option \<Rightarrow>
     (failure + 'a heap \<times> forward_list) option" where
  "copy_loop ndebug h src dst it e =
     (if it \<noteq> e then
        obnd (Some (it_deref ndebug h src it)) (\<lambda>elem.
        obnd (Some (push_back h dst elem)) (\<lambda>(h1, dst1).
        obnd (Some (it_incr ndebug h1 src it)) (\<lambda>it'.
        copy_loop ndebug h1 src dst1 it' e)))
      else ok (h, dst))"

declare copy_loop.simps [code]

definition copy_list :: "bool \<Rightarrow> 'a heap \<Rightarrow> forward_list \<Rightarrow> (failure + 'a heap \<times> forward_list) option" where
  "copy_list ndebug h src =
     obnd (Some (init_list h)) (\<lambda>(h0, dst).
     obnd (Some (cbegin h0 src)) (\<lambda>b.
     copy_loop ndebug h0 src dst b (cend src)))"

text \<open>
  \<^verbatim>\<open>merge(list_, is_ascending)\<close>. The three loops work on raw node pointers; \<open>hh\<close> is the
  local \<^verbatim>\<open>h\<close>. The local \<^verbatim>\<open>new_list\<close> is destroyed when the function returns.
\<close>

definition in_range :: "addr option \<Rightarrow> addr option \<Rightarrow> bool" where
  "in_range x e = (x \<noteq> None \<and> x \<noteq> e)"

partial_function (option) merge_loop1 ::
  "('a::linorder) heap \<Rightarrow> addr option \<Rightarrow> addr option \<Rightarrow> bool \<Rightarrow> addr option \<Rightarrow> addr option \<Rightarrow> addr option \<Rightarrow> nat \<Rightarrow>
     (failure + 'a heap \<times> addr option \<times> addr option \<times> addr option \<times> nat) option" where
  "merge_loop1 h end_1 end_2 is_ascending i j hh new_size =
     (if in_range i end_1 \<and> in_range j end_2 then
        obnd (Some (load h i)) (\<lambda>ni.
        obnd (Some (load h j)) (\<lambda>nj.
        if data ni = data nj then
          obnd (Some (take_node h hh i)) (\<lambda>(h1, i').
          obnd (Some (load h1 j)) (\<lambda>nj1.
          merge_loop1 h1 end_1 end_2 is_ascending i' (succ nj1) i (new_size + 1)))
        else if (data ni < data nj) \<noteq> (\<not> is_ascending) then
          obnd (Some (take_node h hh i)) (\<lambda>(h1, i').
          merge_loop1 h1 end_1 end_2 is_ascending i' j i (new_size + 1))
        else
          obnd (Some (take_node h hh j)) (\<lambda>(h1, j').
          merge_loop1 h1 end_1 end_2 is_ascending i j' j (new_size + 1))))
      else ok (h, i, j, hh, new_size))"

declare merge_loop1.simps [code]

partial_function (option) merge_loop2 ::
  "'a heap \<Rightarrow> addr option \<Rightarrow> addr option \<Rightarrow> addr option \<Rightarrow> nat \<Rightarrow>
     (failure + 'a heap \<times> addr option \<times> nat) option" where
  "merge_loop2 h e x hh new_size =
     (if in_range x e then
        obnd (Some (take_node h hh x)) (\<lambda>(h1, x').
        merge_loop2 h1 e x' x (new_size + 1))
      else ok (h, hh, new_size))"

declare merge_loop2.simps [code]

text \<open>The three loops, one after the other.\<close>

definition merge_loops ::
  "('a::linorder) heap \<Rightarrow> addr option \<Rightarrow> addr option \<Rightarrow> bool \<Rightarrow> addr option \<Rightarrow> addr option \<Rightarrow> addr option \<Rightarrow> nat \<Rightarrow>
     (failure + 'a heap \<times> addr option \<times> nat) option" where
  "merge_loops h end_1 end_2 is_ascending i j hh new_size =
     obnd (merge_loop1 h end_1 end_2 is_ascending i j hh new_size) (\<lambda>(h3, i3, j3, hh3, new_size3).
     obnd (merge_loop2 h3 end_1 i3 hh3 new_size3) (\<lambda>(h4, hh4, new_size4).
     merge_loop2 h4 end_2 j3 hh4 new_size4))"

definition merge ::
  "bool \<Rightarrow> ('a::linorder) heap \<Rightarrow> forward_list \<Rightarrow> forward_list \<Rightarrow> bool \<Rightarrow>
     (failure + 'a heap \<times> forward_list) option" where
  "merge ndebug h l list_arg is_ascending =
     (if empty_fl list_arg then ok (h, l)
      else
        obnd (copy_list ndebug h list_arg) (\<lambda>(h0, new_list).
        obnd (if \<not> ndebug then ensure_sorted h0 l l is_ascending else ok h0) (\<lambda>h1.
        obnd (if \<not> ndebug then ensure_sorted h1 list_arg new_list is_ascending else ok h1) (\<lambda>h2.
        obnd (Some (load h2 (head l))) (\<lambda>n1.
        obnd (Some (load h2 (head new_list))) (\<lambda>n2.
        obnd (merge_loops h2 (tail l) (tail new_list) is_ascending (succ n1) (succ n2) (head l) 0)
          (\<lambda>(h5, hh5, new_size5).
        obnd (Some (load h5 hh5)) (\<lambda>nh.
        obnd (destroy ndebug h5 new_list) (\<lambda>h6.
        ok (h6, l\<lparr>tail := succ nh, size_fl := new_size5\<rparr>))))))))))"

section \<open>Construction from a sequence\<close>

text \<open>
  The constructors from a container or a range create the empty list and call
  \<^verbatim>\<open>push_back\<close> on each element in order.
\<close>

fun push_all :: "'a heap \<Rightarrow> forward_list \<Rightarrow> 'a list \<Rightarrow> failure + 'a heap \<times> forward_list" where
  "push_all h l [] = Inr (h, l)"
| "push_all h l (x # xs) =
     (case push_back h l x of Inl e \<Rightarrow> Inl e | Inr (h1, l1) \<Rightarrow> push_all h1 l1 xs)"

definition from_elems :: "'a heap \<Rightarrow> 'a list \<Rightarrow> failure + 'a heap \<times> forward_list" where
  "from_elems h xs = (case init_list h of Inl e \<Rightarrow> Inl e | Inr (h1, l) \<Rightarrow> push_all h1 l xs)"

text \<open>A store in which nothing has been allocated yet.\<close>

definition empty_heap :: "'a \<Rightarrow> 'a heap" where
  "empty_heap d = \<lparr>cells = (\<lambda>a. None), brk = 0, junk = (\<lambda>a. d)\<rparr>"


text \<open>Running a member function on the list constructed from \<open>xs\<close> in an empty store.\<close>

definition on_list ::
  "'a \<Rightarrow> 'a list \<Rightarrow> ('a heap \<Rightarrow> forward_list \<Rightarrow> (failure + 'b) option) \<Rightarrow> (failure + 'b) option" where
  "on_list d xs f = obnd (Some (from_elems (empty_heap d) xs)) (\<lambda>(h, l). f h l)"

section \<open>Sequences of pushes and pops\<close>

text \<open>
  A caller that starts from an empty list and calls \<^verbatim>\<open>push_back\<close>, \<^verbatim>\<open>pop_front\<close> and
  \<^verbatim>\<open>pop_back\<close> in some order. The run counts the pushes, and the pops that find the list
  not \<^verbatim>\<open>empty()\<close> (the others return at once).
\<close>

datatype 'a queue_op = Push_back 'a | Pop_front | Pop_back

fun apply_op :: "bool \<Rightarrow> 'a heap \<Rightarrow> forward_list \<Rightarrow> 'a queue_op \<Rightarrow> (failure + 'a heap \<times> forward_list) option" where
  "apply_op ndebug h l (Push_back x) = Some (push_back h l x)"
| "apply_op ndebug h l Pop_front = Some (pop_front h l)"
| "apply_op ndebug h l Pop_back = pop_back ndebug h l"

fun tally :: "forward_list \<Rightarrow> 'a queue_op \<Rightarrow> nat \<times> nat \<Rightarrow> nat \<times> nat" where
  "tally l (Push_back x) (pushes, pops) = (pushes + 1, pops)"
| "tally l Pop_front (pushes, pops) = (if empty_fl l then (pushes, pops) else (pushes, pops + 1))"
| "tally l Pop_back (pushes, pops) = (if empty_fl l then (pushes, pops) else (pushes, pops + 1))"

fun run_ops ::
  "bool \<Rightarrow> 'a heap \<Rightarrow> forward_list \<Rightarrow> nat \<times> nat \<Rightarrow> 'a queue_op list \<Rightarrow>
     (failure + 'a heap \<times> forward_list \<times> nat \<times> nat) option" where
  "run_ops ndebug h l counts [] = ok (h, l, counts)"
| "run_ops ndebug h l counts (p # ps) =
     obnd (apply_op ndebug h l p) (\<lambda>(h1, l1). run_ops ndebug h1 l1 (tally l p counts) ps)"

definition run_from_empty ::
  "bool \<Rightarrow> 'a heap \<Rightarrow> 'a queue_op list \<Rightarrow> (failure + 'a heap \<times> forward_list \<times> nat \<times> nat) option" where
  "run_from_empty ndebug h ops = obnd (Some (init_list h)) (\<lambda>(h0, l). run_ops ndebug h0 l (0, 0) ops)"

text \<open>What the calls mean for the sequence of elements, and the elements pushed, in order.\<close>

fun seq_op :: "'a list \<Rightarrow> 'a queue_op \<Rightarrow> 'a list" where
  "seq_op xs (Push_back x) = xs @ [x]"
| "seq_op xs Pop_front = tl xs"
| "seq_op xs Pop_back = butlast xs"

fun pushed :: "'a queue_op list \<Rightarrow> 'a list" where
  "pushed [] = []"
| "pushed (Push_back x # ps) = x # pushed ps"
| "pushed (Pop_front # ps) = pushed ps"
| "pushed (Pop_back # ps) = pushed ps"

section \<open>The representation invariant\<close>

text \<open>
  \<open>path h p as q\<close>: starting at pointer \<open>p\<close>, the nodes at the addresses \<open>as\<close> are
  allocated and linked by \<^verbatim>\<open>succ\<close> in this order, and the last link leads to \<open>q\<close>.
\<close>

fun path :: "'a heap \<Rightarrow> addr option \<Rightarrow> addr list \<Rightarrow> addr option \<Rightarrow> bool" where
  "path h p [] q = (p = q)"
| "path h p (a # as) q =
     (p = Some a \<and> (case cells h a of None \<Rightarrow> False | Some n \<Rightarrow> path h (succ n) as q))"

text \<open>The element stored in the (allocated) node at \<open>a\<close>.\<close>

definition data_at :: "'a heap \<Rightarrow> addr \<Rightarrow> 'a" where
  "data_at h a = data (the (cells h a))"

text \<open>
  \<open>chain h l as\<close>: the list \<open>l\<close> is well formed in the store \<open>h\<close> and its real elements
  are the nodes at \<open>as\<close>, in order. The sentinel \<^verbatim>\<open>head\<close> leads through \<open>as\<close> to the
  sentinel \<^verbatim>\<open>tail\<close>, whose successor is null; all these nodes are distinct and were handed
  out by \<^verbatim>\<open>new\<close>; \<^verbatim>\<open>size_\<close> is the number of real elements.
\<close>

definition chain :: "'a heap \<Rightarrow> forward_list \<Rightarrow> addr list \<Rightarrow> bool" where
  "chain h l as =
     (case head l of None \<Rightarrow> False | Some hp \<Rightarrow>
       (case tail l of None \<Rightarrow> False | Some tp \<Rightarrow>
          path h (Some hp) (hp # as) (Some tp) \<and> distinct (hp # as @ [tp]) \<and>
          (case cells h tp of None \<Rightarrow> False | Some n \<Rightarrow> succ n = None) \<and>
          size_fl l = length as \<and> list_all (\<lambda>a. a < brk h) (hp # as @ [tp])))"

section \<open>Sequences of elements: order and merging\<close>

text \<open>A sequence in the order \<^verbatim>\<open>sorted(is_ascending)\<close> accepts.\<close>

definition in_order :: "bool \<Rightarrow> ('a::linorder) list \<Rightarrow> bool" where
  "in_order is_ascending xs = sorted_wrt (\<lambda>a b. if is_ascending then a \<le> b else b \<le> a) xs"

text \<open>
  What the three loops of \<^verbatim>\<open>merge\<close> do to the two sequences of elements: on equal heads
  the receiver's element is taken and the argument's is passed over; otherwise the test
  \<^verbatim>\<open>(i->data < j->data) ^ !is_ascending\<close> decides; what is left of either sequence follows.
\<close>

fun merge_elems :: "bool \<Rightarrow> ('a::linorder) list \<Rightarrow> 'a list \<Rightarrow> 'a list" where
  "merge_elems is_ascending [] ys = ys"
| "merge_elems is_ascending xs [] = xs"
| "merge_elems is_ascending (x # xs) (y # ys) =
     (if x = y then x # merge_elems is_ascending xs ys
      else if (x < y) \<noteq> (\<not> is_ascending) then x # merge_elems is_ascending xs (y # ys)
      else y # merge_elems is_ascending (x # xs) ys)"

text \<open>The same on the nodes, \<open>d\<close> giving the element of each node.\<close>

fun merge_nodes :: "(addr \<Rightarrow> 'a::linorder) \<Rightarrow> bool \<Rightarrow> addr list \<Rightarrow> addr list \<Rightarrow> addr list" where
  "merge_nodes d is_ascending [] cs = cs"
| "merge_nodes d is_ascending as [] = as"
| "merge_nodes d is_ascending (a # as) (c # cs) =
     (if d a = d c then a # merge_nodes d is_ascending as cs
      else if (d a < d c) \<noteq> (\<not> is_ascending) then a # merge_nodes d is_ascending as (c # cs)
      else c # merge_nodes d is_ascending (a # as) cs)"

text \<open>
  Following \<^verbatim>\<open>succ\<close> from the pointer \<open>p\<close> leads, through allocated nodes, to the null
  pointer or to the node \<open>e\<close>.
\<close>

definition runs_out :: "'a heap \<Rightarrow> addr \<Rightarrow> addr option \<Rightarrow> bool" where
  "runs_out h e p = (\<exists>ns q. path h p ns q \<and> (q = None \<or> q = Some e) \<and> e \<notin> set ns)"

text \<open>
  The store \<open>h5\<close> that the loops of \<^verbatim>\<open>merge\<close> leave when they start in \<open>h\<close> with \<^verbatim>\<open>h\<close> at the
  node \<open>hh\<close> and link the nodes \<open>ms\<close>: \<open>hh\<close> leads through \<open>ms\<close> to one of the two tail
  sentinels; only links of \<open>hh\<close> and \<open>ms\<close> have changed.
\<close>

definition merged :: "'a heap \<Rightarrow> addr \<Rightarrow> addr list \<Rightarrow> addr \<Rightarrow> addr \<Rightarrow> 'a heap \<Rightarrow> bool" where
  "merged h hh ms tp1 tp2 h5 \<longleftrightarrow>
     (ms = [] \<longrightarrow> h5 = h) \<and>
     (ms \<noteq> [] \<longrightarrow> (\<exists>t. (t = tp1 \<or> t = tp2) \<and> path h5 (Some hh) (hh # ms) (Some t))) \<and>
     (\<forall>b. b \<notin> set (hh # ms) \<longrightarrow> cells h5 b = cells h b) \<and>
     (\<forall>b. map_option data (cells h5 b) = map_option data (cells h b)) \<and>
     brk h5 = brk h \<and> junk h5 = junk h"

section \<open>Properties\<close>

subsection \<open>Evaluation rules\<close>

lemma bnd_Inr [simp]: "bnd (Inr x) f = f x"
  by (simp add: bnd_def)

lemma bnd_Inl [simp]: "bnd (Inl e) f = Inl e"
  by (simp add: bnd_def)

lemma obnd_Some_Inr [simp]: "obnd (Some (Inr x)) f = f x"
  by (simp add: obnd_def)

lemma obnd_Some_Inl [simp]: "obnd (Some (Inl e)) f = Some (Inl e)"
  by (simp add: obnd_def)

lemma obnd_None [simp]: "obnd None f = None"
  by (simp add: obnd_def)

lemma obnd_ok [simp]: "obnd (ok x) f = f x"
  by (simp add: ok_def)

lemma ok_inject [simp]: "ok x = ok y \<longleftrightarrow> x = y"
  by (simp add: ok_def)

lemma walk_1: "walk h p 1 = bnd (load h p) (\<lambda>n. Inr (succ n))"
  by simp

lemma walk_2: "walk h p 2 = bnd (load h p) (\<lambda>n. bnd (load h (succ n)) (\<lambda>m. Inr (succ m)))"
  by (simp add: numeral_2_eq_2)

text \<open>The continuation of a step is simplified only once the step has a value.\<close>

lemma bnd_weak_cong [cong]: "m = m' \<Longrightarrow> bnd m f = bnd m' f"
  by simp

lemma obnd_weak_cong [cong]: "m = m' \<Longrightarrow> obnd m f = obnd m' f"
  by simp

lemmas eval_defs = walk_1 walk_2 on_list_def from_elems_def empty_heap_def init_list_def
  new_Node_def store_succ_def store_data_def push_back_def load_def it_deref_def it_incr_def
  it_plus_def cend_def cbegin_def cbefore_begin_def to_list_def iterate.simps ok_def
  delete_Node_def empty_fl_def size_sub_def deref_plus_def

lemmas eval_sorted = sorted_fl_def sorted_loop.simps

lemmas eval_unique = unique_def unique_for.simps unique_for_cond_def unique_while.simps
  ensure_sorted_def pop_back_def pop_back_scan.simps

lemmas eval_sort = sort_fl_def sort2_def take_node_def differs_from_succ_def
  inplace_merge_loop1.simps inplace_merge_loop2.simps inplace_merge_def

subsection \<open>sort\<close>

text \<open>
  C1. The claim: after \<^verbatim>\<open>sort(true)\<close> the list is sorted, \<^verbatim>\<open>sorted(true)\<close> returns true.
  The code at the list \<open>[1, 1, 0, 0, 0]\<close>: \<^verbatim>\<open>sort(true)\<close> leaves the elements in the
  order \<open>[0, 0, 1, 1, 0]\<close> and \<^verbatim>\<open>sorted(true)\<close> then returns false, in both builds.
  (\<^verbatim>\<open>_inplace_merge\<close> returns \<^verbatim>\<open>last_\<close> when the last elements of its two runs are
  equal, although the node it linked last is \<^verbatim>\<open>mid_\<close>; the caller then merges a range
  that is one node short.)
\<close>

theorem sort_leaves_list_unsorted:
  "on_list 0 [1, 1, 0, 0, 0 :: int] (\<lambda>h l.
     obnd (sort_fl h l True) (\<lambda>(h1, l1).
     obnd (to_list False h1 l1) (\<lambda>xs.
     obnd (sorted_fl False h1 l1 True) (\<lambda>s. ok (xs, s)))))
   = ok ([0, 0, 1, 1, 0], False)
   \<and> on_list 0 [1, 1, 0, 0, 0 :: int] (\<lambda>h l.
     obnd (sort_fl h l True) (\<lambda>(h1, l1).
     obnd (to_list True h1 l1) (\<lambda>xs.
     obnd (sorted_fl True h1 l1 True) (\<lambda>s. ok (xs, s)))))
   = ok ([0, 0, 1, 1, 0], False)"
  by (simp add: eval_defs eval_sort eval_sorted)

subsection \<open>search\<close>

text \<open>
  C6. The claim: on a list sorted ascending, \<^verbatim>\<open>search(elem, true)\<close> returns the cursor at
  the last element \<open>\<le> elem\<close>, or \<^verbatim>\<open>before_begin\<close> if the first element exceeds \<open>elem\<close>.
  The code on \<open>[1, 2, 3]\<close>: \<^verbatim>\<open>search(2, true)\<close> returns \<^verbatim>\<open>before_begin\<close> (the first
  element is smaller than 2, and the first test returns at once), and \<^verbatim>\<open>search(0, true)\<close>,
  where the first element exceeds 0, returns the cursor at the last element, 3.
\<close>

theorem search_comparisons_inverted:
  "on_list 0 [1, 2, 3 :: int] (\<lambda>h l.
     obnd (search False h l 2 True) (\<lambda>r. ok (r = cbefore_begin l))) = ok True
   \<and> on_list 0 [1, 2, 3 :: int] (\<lambda>h l.
     obnd (search True h l 2 True) (\<lambda>r. ok (r = cbefore_begin l))) = ok True
   \<and> on_list 0 [1, 2, 3 :: int] (\<lambda>h l.
     obnd (search False h l 0 True) (\<lambda>r. ok (r = cbefore_begin l, it_deref False h l r))) = ok (False, Inr 3)
   \<and> on_list 0 [1, 2, 3 :: int] (\<lambda>h l.
     obnd (search True h l 0 True) (\<lambda>r. ok (r = cbefore_begin l, it_deref True h l r))) = ok (False, Inr 3)"
  by (simp add: eval_defs search_def search_loop.simps)

subsection \<open>back\<close>

text \<open>
  C9. The claim: both overloads of \<^verbatim>\<open>back()\<close> yield the cursor at the last real element,
  the one whose successor is \<^verbatim>\<open>end()\<close>. The code on \<open>[1, 2, 3]\<close>: the const overload
  returns the cursor \<^verbatim>\<open>begin()\<close>, at the element 1, and advancing it by one does not reach
  \<^verbatim>\<open>end()\<close>; the overload of a mutable list returns the cursor at 3.
\<close>

theorem back_const_returns_begin:
  "on_list 0 [1, 2, 3 :: int] (\<lambda>h l.
     obnd (Some (back_const h l)) (\<lambda>r.
     obnd (Some (cbegin h l)) (\<lambda>b.
     obnd (Some (it_plus False h l r 1)) (\<lambda>r1.
     obnd (back_mutable False h l) (\<lambda>m.
     ok (r = b, r1 = cend l, it_deref False h l r, it_deref False h l m))))))
   = ok (True, False, Inr 1, Inr 3)"
  by (simp add: eval_defs back_const_def back_mutable_def back_scan.simps)

subsection \<open>unique\<close>

text \<open>
  C3. The claim: \<^verbatim>\<open>unique()\<close> keeps one element of every run of equal elements, and
  turns \<open>[1, 2, 3, 3, 3, 4, 7, 7, 10]\<close> into \<open>[1, 2, 3, 4, 7, 10]\<close>. The code unlinks two
  nodes for every duplicate it finds (\<^verbatim>\<open>i.node->succ = (i + 2).node->succ\<close>) and
  decrements \<^verbatim>\<open>size_\<close> once. On the list of the claim the run of 7 takes the element 10
  with it, and the next comparison dereferences \<^verbatim>\<open>end()\<close>: the exception
  \<^verbatim>\<open>TVJ_FORWARD_LIST_OVERFLOW\<close> when \<^verbatim>\<open>NDEBUG\<close> is not defined, a null pointer
  dereference when it is. On \<open>[1, 1, 2, 3, 4]\<close> the call returns, with the elements
  \<open>[1, 3, 4]\<close> and \<^verbatim>\<open>size_\<close> 4.
\<close>

theorem unique_unlinks_two_nodes:
  "on_list 0 [1, 2, 3, 3, 3, 4, 7, 7, 10 :: int] (\<lambda>h l.
     obnd (unique False h l) (\<lambda>(h1, l1). to_list False h1 l1))
   = Some (Inl (Thrown TVJ_FORWARD_LIST_OVERFLOW))
   \<and> on_list 0 [1, 2, 3, 3, 3, 4, 7, 7, 10 :: int] (\<lambda>h l.
     obnd (unique True h l) (\<lambda>(h1, l1). to_list True h1 l1))
   = Some (Inl Invalid_Access)
   \<and> on_list 0 [1, 1, 2, 3, 4 :: int] (\<lambda>h l.
     obnd (unique False h l) (\<lambda>(h1, l1).
     obnd (to_list False h1 l1) (\<lambda>xs. ok (xs, size_fl l1))))
   = ok ([1, 3, 4], 4)
   \<and> on_list 0 [1, 1, 2, 3, 4 :: int] (\<lambda>h l.
     obnd (unique True h l) (\<lambda>(h1, l1).
     obnd (to_list True h1 l1) (\<lambda>xs. ok (xs, size_fl l1))))
   = ok ([1, 3, 4], 4)"
  by (simp add: eval_defs eval_unique eval_sorted)

subsection \<open>Paths and the iterator operators\<close>

lemma load_Some [simp]: "cells h a = Some n \<Longrightarrow> load h (Some a) = Inr n"
  by (simp add: load_def)

lemma load_None [simp]: "load h None = Inl Invalid_Access"
  by (simp add: load_def)

lemma path_append: "path h p (as @ bs) q = (\<exists>m. path h p as m \<and> path h m bs q)"
  by (induction as arbitrary: p) (auto split: option.splits)

lemma path_frame:
  "(\<And>a. a \<in> set as \<Longrightarrow> cells h' a = cells h a) \<Longrightarrow> path h' p as q = path h p as q"
  by (induction as arbitrary: p) (auto split: option.splits)

lemma path_live: "path h p as q \<Longrightarrow> a \<in> set as \<Longrightarrow> cells h a \<noteq> None"
  by (induction as arbitrary: p) (auto split: option.splits)

lemma path_ConsE:
  assumes "path h p (a # as) q"
  obtains n where "p = Some a" "cells h a = Some n" "path h (succ n) as q"
  using assms by (auto split: option.splits)

lemma path_snoc:
  "path h p (as @ [a]) q = (\<exists>n. path h p as (Some a) \<and> cells h a = Some n \<and> succ n = q)"
  by (auto simp: path_append split: option.splits)

text \<open>The iterator operators at a node of the list that is not the tail sentinel.\<close>

lemma it_incr_node:
  "cells h a = Some n \<Longrightarrow> tail l \<noteq> Some a \<Longrightarrow> it_incr nd h l (Some a) = Inr (succ n)"
  by (auto simp: it_incr_def)

lemma it_plus_node:
  "tail l \<noteq> Some a \<Longrightarrow> it_plus nd h l (Some a) k = walk h (Some a) k"
  by (auto simp: it_plus_def)

lemma it_deref_node:
  "cells h a = Some n \<Longrightarrow> tail l \<noteq> Some a \<Longrightarrow> head l \<noteq> Some a \<Longrightarrow>
   it_deref nd h l (Some a) = Inr (data n)"
  by (auto simp: it_deref_def)

lemma data_at_Some: "cells h a = Some n \<Longrightarrow> data_at h a = data n"
  by (simp add: data_at_def)

lemma iterate_path:
  "path h p as (tail l) \<Longrightarrow> tail l = Some tp \<Longrightarrow> tp \<notin> set as \<Longrightarrow> head l = Some hp \<Longrightarrow>
   hp \<notin> set as \<Longrightarrow> iterate nd h l p (tail l) acc = ok (acc @ map (data_at h) as)"
proof (induction as arbitrary: p acc)
  case Nil
  then show ?case by (subst iterate.simps) simp
next
  case (Cons a as)
  from Cons.prems(1) obtain n where n: "p = Some a" "cells h a = Some n" "path h (succ n) as (tail l)"
    by (rule path_ConsE)
  have a: "tail l \<noteq> Some a" "head l \<noteq> Some a" "p \<noteq> tail l"
    using Cons.prems n by auto
  have "iterate nd h l (succ n) (tail l) ((acc @ [data n]) ) = ok ((acc @ [data n]) @ map (data_at h) as)"
    using Cons.IH [OF n(3)] Cons.prems by simp
  then show ?case
    using n a by (subst iterate.simps) (simp add: it_incr_node it_deref_node data_at_Some)
qed

lemma chain_iff:
  "chain h l as \<longleftrightarrow>
     (\<exists>hp tp nt. head l = Some hp \<and> tail l = Some tp \<and>
        path h (Some hp) (hp # as) (Some tp) \<and> distinct (hp # as @ [tp]) \<and>
        cells h tp = Some nt \<and> succ nt = None \<and> size_fl l = length as \<and>
        (\<forall>a \<in> set (hp # as @ [tp]). a < brk h))"
  by (auto simp: chain_def list_all_iff split: option.splits)

lemma chainE:
  assumes "chain h l as"
  obtains hp tp nt where "head l = Some hp" "tail l = Some tp"
    "path h (Some hp) (hp # as) (Some tp)" "distinct (hp # as @ [tp])"
    "cells h tp = Some nt" "succ nt = None" "size_fl l = length as"
    "\<forall>a \<in> set (hp # as @ [tp]). a < brk h"
  using assms unfolding chain_iff by blast

lemma chainI:
  "head l = Some hp \<Longrightarrow> tail l = Some tp \<Longrightarrow> path h (Some hp) (hp # as) (Some tp) \<Longrightarrow>
   distinct (hp # as @ [tp]) \<Longrightarrow> cells h tp = Some nt \<Longrightarrow> succ nt = None \<Longrightarrow>
   size_fl l = length as \<Longrightarrow> \<forall>a \<in> set (hp # as @ [tp]). a < brk h \<Longrightarrow> chain h l as"
  unfolding chain_iff by blast

lemma to_list_chain: "chain h l as \<Longrightarrow> to_list nd h l = ok (map (data_at h) as)"
proof -
  assume c: "chain h l as"
  from c obtain hp tp nt where f: "head l = Some hp" "tail l = Some tp"
    "path h (Some hp) (hp # as) (Some tp)" "distinct (hp # as @ [tp])"
    by (rule chainE)
  from f(3) obtain n where n: "cells h hp = Some n" "path h (succ n) as (Some tp)"
    by (auto split: option.splits)
  have "iterate nd h l (succ n) (tail l) [] = ok ([] @ map (data_at h) as)"
    using n f by (intro iterate_path [where tp = tp and hp = hp]) auto
  then show ?thesis
    using f n by (simp add: to_list_def cbegin_def cend_def)
qed

subsection \<open>Construction, push_back, the pops\<close>

lemma push_back_chain:
  assumes c: "chain h l as"
  obtains h' tp where "tail l = Some tp"
    "push_back h l x = Inr (h', l\<lparr>tail := Some (brk h), size_fl := size_fl l + 1\<rparr>)"
    "chain h' (l\<lparr>tail := Some (brk h), size_fl := size_fl l + 1\<rparr>) (as @ [tp])"
    "map (data_at h') (as @ [tp]) = map (data_at h) as @ [x]"
    "brk h' = Suc (brk h)" "junk h' = junk h"
    "\<And>a. a \<noteq> brk h \<Longrightarrow> a \<noteq> tp \<Longrightarrow> cells h' a = cells h a"
proof -
  from c obtain hp tp nt where f: "head l = Some hp" "tail l = Some tp"
    "path h (Some hp) (hp # as) (Some tp)" "distinct (hp # as @ [tp])"
    "cells h tp = Some nt" "succ nt = None" "size_fl l = length as"
    "\<forall>a \<in> set (hp # as @ [tp]). a < brk h"
    by (rule chainE)
  define b where "b = brk h"
  define h' where "h' = h\<lparr>cells := (cells h)(tp \<mapsto> nt\<lparr>data := x, succ := Some b\<rparr>,
      b \<mapsto> \<lparr>data = junk h b, succ = None\<rparr>), brk := Suc b\<rparr>"
  define l' where "l' = l\<lparr>tail := Some b, size_fl := size_fl l + 1\<rparr>"
  have fresh: "b \<notin> set (hp # as @ [tp])"
    using f(8) unfolding b_def by auto
  have pb: "push_back h l x = Inr (h', l')"
    using f(2,5) fresh
    by (simp add: push_back_def store_data_def new_Node_def store_succ_def h'_def l'_def b_def
        fun_upd_twist)
  have cells_same: "cells h' a = cells h a" if "a \<noteq> b" "a \<noteq> tp" for a
    using that by (simp add: h'_def)
  have p1: "path h' (Some hp) (hp # as) (Some tp)"
    using f(3,4) fresh by (subst path_frame [where h = h]) (auto intro: cells_same)
  have p2: "path h' (Some hp) ((hp # as) @ [tp]) (Some b)"
    unfolding path_snoc using p1 fresh by (auto simp: h'_def)
  have ch: "chain h' l' (as @ [tp])"
  proof (rule chainI [where hp = hp and tp = b])
    show "head l' = Some hp" by (simp add: l'_def f)
    show "tail l' = Some b" by (simp add: l'_def)
    show "path h' (Some hp) (hp # as @ [tp]) (Some b)" using p2 by simp
    show "distinct (hp # (as @ [tp]) @ [b])" using f(4) fresh by auto
    show "cells h' b = Some \<lparr>data = junk h b, succ = None\<rparr>" by (simp add: h'_def)
    show "succ \<lparr>data = junk h b, succ = None\<rparr> = None" by simp
    show "size_fl l' = length (as @ [tp])" by (simp add: l'_def f)
    show "\<forall>a \<in> set (hp # (as @ [tp]) @ [b]). a < brk h'"
      using f(8) by (auto simp: h'_def b_def less_Suc_eq)
  qed
  have d1: "data_at h' a = data_at h a" if "a \<in> set as" for a
  proof -
    have "a \<noteq> b" "a \<noteq> tp" using that f(4) fresh by auto
    then have "cells h' a = cells h a" by (rule cells_same)
    then show ?thesis by (simp add: data_at_def)
  qed
  have d2: "data_at h' tp = x"
    using fresh by (auto simp: data_at_def h'_def)
  show ?thesis
  proof (rule that [of tp h'])
    show "tail l = Some tp" by fact
    show "push_back h l x = Inr (h', l\<lparr>tail := Some (brk h), size_fl := size_fl l + 1\<rparr>)"
      using pb by (simp add: l'_def b_def)
    show "chain h' (l\<lparr>tail := Some (brk h), size_fl := size_fl l + 1\<rparr>) (as @ [tp])"
      using ch by (simp add: l'_def b_def)
    show "map (data_at h') (as @ [tp]) = map (data_at h) as @ [x]"
      using d1 d2 by simp
    show "brk h' = Suc (brk h)" by (simp add: h'_def b_def)
    show "junk h' = junk h" by (simp add: h'_def)
    show "\<And>a. a \<noteq> brk h \<Longrightarrow> a \<noteq> tp \<Longrightarrow> cells h' a = cells h a"
      using cells_same by (simp add: b_def)
  qed
qed

lemma init_list_chain:
  obtains h' l' where "init_list h = Inr (h', l')" "chain h' l' []" "brk h' = brk h + 2"
    "junk h' = junk h" "\<And>a. a < brk h \<Longrightarrow> cells h' a = cells h a"
    "head l' = Some (brk h)" "tail l' = Some (Suc (brk h))"
proof -
  define b where "b = brk h"
  define h' where "h' = h\<lparr>cells := (cells h)(b \<mapsto> \<lparr>data = junk h b, succ = Some (Suc b)\<rparr>,
      Suc b \<mapsto> \<lparr>data = junk h (Suc b), succ = None\<rparr>), brk := Suc (Suc b)\<rparr>"
  define l' where "l' = \<lparr>head = Some b, tail = Some (Suc b), size_fl = 0\<rparr>"
  have i: "init_list h = Inr (h', l')"
    by (simp add: init_list_def new_Node_def store_succ_def h'_def l'_def b_def fun_upd_twist)
  have c: "chain h' l' []"
    by (rule chainI [where hp = b and tp = "Suc b"]) (auto simp: h'_def l'_def)
  show ?thesis
    by (rule that [OF i c]) (auto simp: h'_def l'_def b_def)
qed

lemma walk1_path_Cons: "path h p (i # j # rest) q \<Longrightarrow> walk h p 1 = Inr (Some j)"
  by (auto split: option.splits)

lemma walk1_path_single: "path h p [i] q \<Longrightarrow> walk h p 1 = Inr q"
  by (auto split: option.splits)

lemma walk2_path_Cons: "path h p (i # j # k # rest) q \<Longrightarrow> walk h p 2 = Inr (Some k)"
  by (auto simp: numeral_2_eq_2 split: option.splits)

lemma walk2_path_two: "path h p [i, j] q \<Longrightarrow> walk h p 2 = Inr q"
  by (auto simp: numeral_2_eq_2 split: option.splits)

lemma size_sub_Suc [simp]: "size_sub (Suc n) (Suc 0) = n"
  by (simp add: size_sub_def)

lemma size_sub_le: "k \<le> n \<Longrightarrow> size_sub n k = n - k"
  by (simp add: size_sub_def)

lemma pop_front_chain:
  assumes c: "chain h l as"
  obtains l' where "pop_front h l = Inr (h, l')" "chain h l' (tl as)"
proof (cases as)
  case Nil
  have "pop_front h l = Inr (h, l)"
    using c Nil by (auto simp: pop_front_def empty_fl_def chain_iff)
  then show ?thesis using that c Nil by simp
next
  case (Cons a as')
  from c obtain hp tp nt where f: "head l = Some hp" "tail l = Some tp"
    "path h (Some hp) (hp # as) (Some tp)" "distinct (hp # as @ [tp])"
    "cells h tp = Some nt" "succ nt = None" "size_fl l = length as"
    "\<forall>a \<in> set (hp # as @ [tp]). a < brk h"
    by (rule chainE)
  from f(3) Cons obtain n where n: "cells h hp = Some n" "succ n = Some a"
    "path h (Some a) (a # as') (Some tp)"
    by (auto split: option.splits)
  define l' where "l' = l\<lparr>head := Some a, size_fl := length as'\<rparr>"
  have p: "pop_front h l = Inr (h, l')"
    using f(1,7) n Cons by (simp add: pop_front_def empty_fl_def l'_def)
  have "chain h l' as'"
    by (rule chainI [where hp = a and tp = tp and nt = nt])
      (use f n Cons in \<open>auto simp: l'_def\<close>)
  then show ?thesis using that p Cons by simp
qed

lemma pop_back_scan_path:
  "path h (Some i) (i # rest @ [a]) (Some tp) \<Longrightarrow> tail l = Some tp \<Longrightarrow>
   tp \<notin> set (i # rest @ [a]) \<Longrightarrow>
   pop_back_scan nd h l (Some i) = ok (Some (last (i # rest)))"
proof (induction rest arbitrary: i)
  case Nil
  have "walk h (Some i) 2 = Inr (Some tp)"
    using Nil.prems(1) by (intro walk2_path_two) simp
  then show ?case
    using Nil.prems by (subst pop_back_scan.simps) (simp add: it_plus_node cend_def)
next
  case (Cons r rest)
  from Cons.prems(1) obtain n where n: "cells h i = Some n" "succ n = Some r"
    "path h (Some r) (r # rest @ [a]) (Some tp)"
    by (auto split: option.splits)
  obtain k ks where k: "rest @ [a] = k # ks"
    by (cases "rest @ [a]") auto
  have w: "walk h (Some i) 2 = Inr (Some k)"
    using Cons.prems(1) k by (intro walk2_path_Cons [where i = i and j = r and rest = ks]) simp
  have "k \<in> set (rest @ [a])" using k by simp
  then have kt: "k \<noteq> tp" using Cons.prems(3) by auto
  have ih: "pop_back_scan nd h l (Some r) = ok (Some (last (r # rest)))"
    using Cons.IH [OF n(3) Cons.prems(2)] Cons.prems(3) by simp
  show ?case
    using Cons.prems(2,3) w kt n ih
    by (subst pop_back_scan.simps) (simp add: it_plus_node cend_def it_incr_node)
qed

lemma pop_back_chain:
  assumes c: "chain h l as"
  obtains h' l' where "pop_back nd h l = ok (h', l')" "chain h' l' (butlast as)"
    "map (data_at h') (butlast as) = butlast (map (data_at h) as)"
    "brk h' = brk h" "junk h' = junk h"
proof (cases as rule: rev_cases)
  case Nil
  have "pop_back nd h l = ok (h, l)"
    using c Nil by (auto simp: pop_back_def empty_fl_def chain_iff)
  then show ?thesis using that [of h l] c Nil by simp
next
  case (snoc bs a)
  from c obtain hp tp nt where f: "head l = Some hp" "tail l = Some tp"
    "path h (Some hp) (hp # as) (Some tp)" "distinct (hp # as @ [tp])"
    "cells h tp = Some nt" "succ nt = None" "size_fl l = length as"
    "\<forall>a \<in> set (hp # as @ [tp]). a < brk h"
    by (rule chainE)
  obtain pre i where pi: "hp # bs = pre @ [i]"
    by (metis append_butlast_last_id list.distinct(1))
  have li: "last (hp # bs) = i"
    unfolding pi by simp
  have scan: "pop_back_scan nd h l (Some hp) = ok (Some i)"
    unfolding li [symmetric] using f snoc by (intro pop_back_scan_path [where a = a and tp = tp]) auto
  have split: "hp # as = pre @ [i, a]"
    using pi snoc by simp
  from f(3) obtain ni na where ni: "path h (Some hp) pre (Some i)"
    "cells h i = Some ni" "succ ni = Some a" "cells h a = Some na" "succ na = Some tp"
    unfolding split by (auto simp: path_append split: option.splits)
  define h' where "h' = h\<lparr>cells := (cells h)(i \<mapsto> ni\<lparr>succ := Some tp\<rparr>, a := None)\<rparr>"
  define l' where "l' = l\<lparr>size_fl := length bs\<rparr>"
  have d: "distinct (pre @ [i, a, tp])"
    using f(4) split by (metis append.assoc append_Cons append_Nil)
  have ia: "i \<noteq> a" "i \<noteq> tp" "a \<noteq> tp" "i \<notin> set pre" "a \<notin> set pre" "tp \<notin> set pre"
    using d by auto
  have pb: "pop_back nd h l = ok (h', l')"
    using scan f(1,2,7) ni ia snoc
    by (simp add: pop_back_def empty_fl_def cbefore_begin_def store_succ_def delete_Node_def
        h'_def l'_def ok_def)
  have p1: "path h' (Some hp) pre (Some i)"
    using ni(1) ia by (subst path_frame [where h = h]) (auto simp: h'_def)
  have "path h' (Some hp) (pre @ [i]) (Some tp)"
    unfolding path_snoc using p1 ia by (auto simp: h'_def)
  then have p2: "path h' (Some hp) (hp # bs) (Some tp)"
    unfolding pi .
  have ch: "chain h' l' bs"
  proof (rule chainI [where hp = hp and tp = tp and nt = nt])
    show "cells h' tp = Some nt" using ia f(5) by (simp add: h'_def)
    show "distinct (hp # bs @ [tp])" using f(4) snoc by auto
    show "\<forall>a \<in> set (hp # bs @ [tp]). a < brk h'" using f(8) snoc by (auto simp: h'_def)
  qed (use f p2 in \<open>auto simp: l'_def\<close>)
  have dat: "data_at h' x = data_at h x" if "x \<in> set bs" for x
  proof -
    have "x \<noteq> a" using that f(4) snoc by auto
    then show ?thesis by (auto simp: data_at_def h'_def ni)
  qed
  show ?thesis
  proof (rule that [OF pb])
    show "chain h' l' (butlast as)" using ch snoc by simp
    show "map (data_at h') (butlast as) = butlast (map (data_at h) as)"
      using dat snoc by (simp add: butlast_append)
  qed (simp_all add: h'_def)
qed

lemma subseq_seq_op:
  assumes "subseq xs ys"
  shows "subseq (seq_op xs p) (ys @ pushed [p])"
proof (cases p)
  case (Push_back x)
  then show ?thesis using assms by (simp add: list_emb_append_mono)
next
  case Pop_front
  note assms
  moreover have "subseq (tl xs) xs" by (cases xs) auto
  ultimately show ?thesis using Pop_front by (auto intro: subseq_order.trans)
next
  case Pop_back
  note assms
  moreover have "subseq (butlast xs) xs"
    by (cases xs rule: rev_cases) auto
  ultimately show ?thesis using Pop_back by (auto intro: subseq_order.trans)
qed

lemma pushed_append: "pushed (ps @ qs) = pushed ps @ pushed qs"
  by (induction ps rule: pushed.induct) auto

lemma pushed_Cons: "pushed (p # ps) = pushed [p] @ pushed ps"
  using pushed_append [of "[p]" ps] by simp

lemma subseq_foldl_seq_op:
  "subseq xs ys \<Longrightarrow> subseq (foldl seq_op xs ps) (ys @ pushed ps)"
proof (induction ps arbitrary: xs ys)
  case Nil
  then show ?case by simp
next
  case (Cons p ps)
  have "subseq (foldl seq_op (seq_op xs p) ps) ((ys @ pushed [p]) @ pushed ps)"
    by (rule Cons.IH) (rule subseq_seq_op [OF Cons.prems])
  then show ?case by (simp add: pushed_Cons [of p ps])
qed

lemma apply_op_chain:
  assumes c: "chain h l as"
  obtains h' l' as' where "apply_op nd h l p = ok (h', l')" "chain h' l' as'"
    "map (data_at h') as' = seq_op (map (data_at h) as) p"
proof (cases p)
  case (Push_back x)
  from c obtain h' tp where "push_back h l x = Inr (h', l\<lparr>tail := Some (brk h), size_fl := size_fl l + 1\<rparr>)"
    "chain h' (l\<lparr>tail := Some (brk h), size_fl := size_fl l + 1\<rparr>) (as @ [tp])"
    "map (data_at h') (as @ [tp]) = map (data_at h) as @ [x]"
    by (rule push_back_chain)
  then show ?thesis using that Push_back by (simp add: ok_def)
next
  case Pop_front
  from c obtain l' where "pop_front h l = Inr (h, l')" "chain h l' (tl as)"
    by (rule pop_front_chain)
  then show ?thesis using that [of h l' "tl as"] Pop_front by (simp add: ok_def map_tl)
next
  case Pop_back
  from c obtain h' l' where "pop_back nd h l = ok (h', l')" "chain h' l' (butlast as)"
    "map (data_at h') (butlast as) = butlast (map (data_at h) as)"
    by (rule pop_back_chain)
  then show ?thesis using that [of h' l' "butlast as"] Pop_back by simp
qed

lemma chain_size: "chain h l as \<Longrightarrow> size_fl l = length as"
  by (auto simp: chain_iff)

lemma tally_correct:
  assumes "chain h l as" "pops \<le> pushes" "pushes - pops = length as"
    "tally l p (pushes, pops) = (pushes', pops')"
  shows "pops' \<le> pushes' \<and> pushes' - pops' = length (seq_op (map (data_at h) as) p) \<and>
         pushes' = pushes + length (pushed [p])"
proof -
  have e: "empty_fl l \<longleftrightarrow> as = []"
    using assms(1) by (simp add: empty_fl_def chain_size)
  have "as \<noteq> [] \<Longrightarrow> Suc pops \<le> pushes"
    using assms(2,3) by (cases as) auto
  then show ?thesis
    using assms(2-4) e by (cases p; cases "as = []") (auto split: if_splits)
qed

lemma run_ops_chain:
  "chain h l as \<Longrightarrow> pops \<le> pushes \<Longrightarrow> pushes - pops = length as \<Longrightarrow>
   \<exists>h' l' as' pushes' pops'. run_ops nd h l (pushes, pops) ps = ok (h', l', pushes', pops') \<and>
      chain h' l' as' \<and> map (data_at h') as' = foldl seq_op (map (data_at h) as) ps \<and>
      pops' \<le> pushes' \<and> pushes' - pops' = length as' \<and> pushes' = pushes + length (pushed ps)"
proof (induction ps arbitrary: h l as pushes pops)
  case Nil
  then show ?case by (auto simp: ok_def)
next
  case (Cons p ps)
  from Cons.prems(1) obtain h1 l1 as1 where s: "apply_op nd h l p = ok (h1, l1)" "chain h1 l1 as1"
    "map (data_at h1) as1 = seq_op (map (data_at h) as) p"
    by (rule apply_op_chain)
  obtain pushes1 pops1 where t: "tally l p (pushes, pops) = (pushes1, pops1)"
    by (cases "tally l p (pushes, pops)")
  have tc: "pops1 \<le> pushes1" "pushes1 - pops1 = length (seq_op (map (data_at h) as) p)"
    "pushes1 = pushes + length (pushed [p])"
    using tally_correct [OF Cons.prems t] by auto
  have len: "pushes1 - pops1 = length as1"
    using tc(2) s(3) [symmetric] by simp
  from Cons.IH [OF s(2) tc(1) len]
  obtain h' l' as' pushes' pops' where r:
    "run_ops nd h1 l1 (pushes1, pops1) ps = ok (h', l', pushes', pops')"
    "chain h' l' as'" "map (data_at h') as' = foldl seq_op (map (data_at h1) as1) ps"
    "pops' \<le> pushes'" "pushes' - pops' = length as'" "pushes' = pushes1 + length (pushed ps)"
    by blast
  have "run_ops nd h l (pushes, pops) (p # ps) = ok (h', l', pushes', pops')"
    using s(1) t r(1) by simp
  moreover have "pushes' = pushes + length (pushed (p # ps))"
    using r(6) tc(3) by (simp add: pushed_Cons [of p ps])
  ultimately show ?case
    using r s(3) by auto
qed

subsection \<open>push_back and the pops\<close>

text \<open>
  C8. For every sequence of \<^verbatim>\<open>push_back\<close>, \<^verbatim>\<open>pop_front\<close> and \<^verbatim>\<open>pop_back\<close> calls on a list
  that starts empty, in either build and whatever the store held before: every call
  returns; iterating from \<^verbatim>\<open>begin()\<close> to \<^verbatim>\<open>end()\<close> then yields the elements that the
  calls leave (\<open>foldl seq_op []\<close>), which are pushed elements in the order of their
  insertion (a subsequence of \<open>pushed\<close>); and \<^verbatim>\<open>size_\<close> is the number of pushes minus the
  number of pops that found the list not empty.
\<close>

theorem push_pop_sequences:
  "\<exists>h' l' pushes pops.
     run_from_empty nd h ps = ok (h', l', pushes, pops) \<and>
     to_list nd h' l' = ok (foldl seq_op [] ps) \<and>
     subseq (foldl seq_op [] ps) (pushed ps) \<and>
     pushes = length (pushed ps) \<and> pops \<le> pushes \<and>
     size_fl l' = pushes - pops"
proof -
  obtain h0 l0 where i: "init_list h = Inr (h0, l0)" "chain h0 l0 []"
    by (rule init_list_chain)
  from run_ops_chain [OF i(2), of 0 0 nd ps]
  obtain h' l' as' pushes' pops' where r:
    "run_ops nd h0 l0 (0, 0) ps = ok (h', l', pushes', pops')"
    "chain h' l' as'" "map (data_at h') as' = foldl seq_op [] ps"
    "pops' \<le> pushes'" "pushes' - pops' = length as'" "pushes' = length (pushed ps)"
    by auto
  have "run_from_empty nd h ps = ok (h', l', pushes', pops')"
    using i(1) r(1) by (simp add: run_from_empty_def)
  moreover have "to_list nd h' l' = ok (foldl seq_op [] ps)"
    using to_list_chain [OF r(2)] r(3) by simp
  moreover have "subseq (foldl seq_op [] ps) (pushed ps)"
    using subseq_foldl_seq_op [of "[]" "[]" ps] by simp
  moreover have "size_fl l' = pushes' - pops'"
    using chain_size [OF r(2)] r(5) by simp
  ultimately show ?thesis
    using r(4,6) by blast
qed

lemma push_all_chain:
  "chain h l as \<Longrightarrow>
   \<exists>h' l' as'. push_all h l xs = Inr (h', l') \<and> chain h' l' as' \<and>
     map (data_at h') as' = map (data_at h) as @ xs"
proof (induction xs arbitrary: h l as)
  case Nil
  then show ?case by auto
next
  case (Cons x xs)
  from Cons.prems obtain h1 tp where p:
    "push_back h l x = Inr (h1, l\<lparr>tail := Some (brk h), size_fl := size_fl l + 1\<rparr>)"
    "chain h1 (l\<lparr>tail := Some (brk h), size_fl := size_fl l + 1\<rparr>) (as @ [tp])"
    "map (data_at h1) (as @ [tp]) = map (data_at h) as @ [x]"
    by (rule push_back_chain)
  from Cons.IH [OF p(2)] obtain h' l' as' where r:
    "push_all h1 (l\<lparr>tail := Some (brk h), size_fl := size_fl l + 1\<rparr>) xs = Inr (h', l')"
    "chain h' l' as'" "map (data_at h') as' = map (data_at h1) (as @ [tp]) @ xs"
    by blast
  have "push_all h l (x # xs) = Inr (h', l')"
    using p(1) r(1) by simp
  then show ?case using r(2,3) p(3) by auto
qed

lemma from_elems_chain:
  obtains h' l' as' where "from_elems h xs = Inr (h', l')" "chain h' l' as'"
    "map (data_at h') as' = xs"
proof -
  obtain h0 l0 where i: "init_list h = Inr (h0, l0)" "chain h0 l0 []"
    by (rule init_list_chain)
  from push_all_chain [OF i(2), of xs] obtain h' l' as' where
    "push_all h0 l0 xs = Inr (h', l')" "chain h' l' as'" "map (data_at h') as' = xs"
    by auto
  then show ?thesis using that i(1) by (simp add: from_elems_def)
qed

subsection \<open>remove_at\<close>

lemma remove_at_loop_not_found:
  "path h (Some i) (i # rest) (Some tp) \<Longrightarrow> tail l = Some tp \<Longrightarrow> tp \<notin> set (i # rest) \<Longrightarrow>
   iter \<notin> Some ` set rest \<Longrightarrow> cells h tp = Some nt \<Longrightarrow>
   remove_at_loop nd h l iter (Some i) = ok (data nt, False, h, l)"
proof (induction rest arbitrary: i)
  case Nil
  have "walk h (Some i) 1 = Inr (Some tp)"
    using Nil.prems(1) by (intro walk1_path_single [where i = i]) simp
  then show ?case
    using Nil.prems by (subst remove_at_loop.simps) (simp add: it_plus_node cend_def ok_def)
next
  case (Cons r rest)
  from Cons.prems(1) obtain n where n: "cells h i = Some n" "succ n = Some r"
    "path h (Some r) (r # rest) (Some tp)"
    by (auto split: option.splits)
  have w: "walk h (Some i) 1 = Inr (Some r)"
    using Cons.prems(1) by (rule walk1_path_Cons)
  have ih: "remove_at_loop nd h l iter (Some r) = ok (data nt, False, h, l)"
    using Cons.IH [OF n(3) Cons.prems(2)] Cons.prems(3,4,5) by simp
  have ne: "Some r \<noteq> iter" "r \<noteq> tp"
    using Cons.prems(3,4) by auto
  show ?case
    using Cons.prems(2,3) w ne n ih
    by (subst remove_at_loop.simps) (simp add: it_plus_node cend_def it_incr_node)
qed

text \<open>
  C10. For every well-formed list and every cursor whose node is not one of the list's
  real element nodes (null, a sentinel of the list, a node of another list, \dots), in either
  build: \<^verbatim>\<open>remove_at\<close> returns, \<^verbatim>\<open>*ok\<close> is false, the value returned is the data of the
  tail sentinel, and neither the store nor the fields of the list have changed.
\<close>

theorem remove_at_not_found:
  assumes "chain h l as" and "iter \<notin> Some ` set as"
  shows "\<exists>tp. tail l = Some tp \<and> remove_at nd h l iter = ok (data_at h tp, False, h, l)"
proof -
  from assms(1) obtain hp tp nt where f: "head l = Some hp" "tail l = Some tp"
    "path h (Some hp) (hp # as) (Some tp)" "distinct (hp # as @ [tp])"
    "cells h tp = Some nt"
    by (rule chainE)
  have "remove_at_loop nd h l iter (Some hp) = ok (data nt, False, h, l)"
    using f assms(2) by (intro remove_at_loop_not_found [where tp = tp]) auto
  then show ?thesis
    using f by (simp add: remove_at_def cbefore_begin_def data_at_def)
qed

theorem remove_at_not_found_witness:
  "\<exists>h l as tp. from_elems (empty_heap (0 :: int)) [1, 2, 3] = Inr (h, l) \<and> chain h l as \<and>
     map (data_at h) as = [1, 2, 3] \<and> cend l \<notin> Some ` set as \<and> tail l = Some tp \<and>
     remove_at False h l (cend l) = ok (data_at h tp, False, h, l)"
proof -
  obtain h l as where b: "from_elems (empty_heap (0 :: int)) [1, 2, 3] = Inr (h, l)"
    "chain h l as" "map (data_at h) as = [1, 2, 3]"
    by (rule from_elems_chain)
  have n: "cend l \<notin> Some ` set as"
    using b(2) by (auto simp: chain_iff cend_def)
  from remove_at_not_found [OF b(2) n, of False] obtain tp where t: "tail l = Some tp"
    "remove_at False h l (cend l) = ok (data_at h tp, False, h, l)"
    by blast
  show ?thesis
    using b n t by (intro exI [of _ h] exI [of _ l] exI [of _ as] exI [of _ tp]) simp
qed

subsection \<open>erase_after and clear\<close>

lemma erase_walk_path:
  "path h j xs (Some tp) \<Longrightarrow> distinct xs \<Longrightarrow> tp \<notin> set xs \<Longrightarrow> tail l = Some tp \<Longrightarrow>
   \<exists>h'. erase_walk nd h l j (Some tp) cnt = ok (Some tp, cnt + length xs, h') \<and>
     (\<forall>b. b \<notin> set xs \<longrightarrow> cells h' b = cells h b) \<and> brk h' = brk h \<and> junk h' = junk h"
proof (induction xs arbitrary: j h cnt)
  case Nil
  then show ?case by (subst erase_walk.simps) simp
next
  case (Cons a xs)
  from Cons.prems(1) obtain n where n: "j = Some a" "cells h a = Some n" "path h (succ n) xs (Some tp)"
    by (rule path_ConsE)
  define h1 where "h1 = (if nd then h\<lparr>cells := (cells h)(a := None)\<rparr> else h)"
  have d: "nd \<Longrightarrow> delete_Node h (Some a) = Inr h1" "\<not> nd \<Longrightarrow> h1 = h"
    using n by (simp_all add: delete_Node_def h1_def)
  have fr: "cells h1 b = cells h b" if "b \<noteq> a" for b
    using that by (simp add: h1_def)
  have p1: "path h1 (succ n) xs (Some tp)"
    using n(3) Cons.prems(2) by (subst path_frame [where h = h]) (auto intro: fr)
  from Cons.IH [OF p1, of "cnt + 1"] Cons.prems obtain h' where r:
    "erase_walk nd h1 l (succ n) (Some tp) (cnt + 1) = ok (Some tp, cnt + 1 + length xs, h')"
    "\<forall>b. b \<notin> set xs \<longrightarrow> cells h' b = cells h1 b" "brk h' = brk h1" "junk h' = junk h1"
    by auto
  have "erase_walk nd h l j (Some tp) cnt = ok (Some tp, cnt + length (a # xs), h')"
    using n Cons.prems(3,4) d r(1)
    by (subst erase_walk.simps) (cases nd; simp add: it_incr_node)
  moreover have "\<forall>b. b \<notin> set (a # xs) \<longrightarrow> cells h' b = cells h b"
    using r(2) fr by auto
  moreover have "brk h' = brk h" "junk h' = junk h"
    using r(3,4) by (simp_all add: h1_def)
  ultimately show ?case by blast
qed

text \<open>The cursor at which the inner loop of \<^verbatim>\<open>erase_after(iter1, iter2)\<close> stops.\<close>

lemma erase_walk2_path:
  "path h j xs (Some tp) \<Longrightarrow> distinct xs \<Longrightarrow> tp \<notin> set xs \<Longrightarrow> tail l = Some tp \<Longrightarrow>
   \<exists>h' j'. erase_walk2 nd h l j iter2 cnt =
        ok (j', cnt + length (takeWhile (\<lambda>x. Some x \<noteq> iter2) xs), h') \<and>
     path h' j' (dropWhile (\<lambda>x. Some x \<noteq> iter2) xs) (Some tp) \<and>
     (\<forall>b. b \<notin> set (takeWhile (\<lambda>x. Some x \<noteq> iter2) xs) \<longrightarrow> cells h' b = cells h b) \<and>
     brk h' = brk h \<and> junk h' = junk h"
proof (induction xs arbitrary: j h cnt)
  case Nil
  then show ?case by (subst erase_walk2.simps) (simp add: cend_def)
next
  case (Cons a xs)
  from Cons.prems(1) obtain n where n: "j = Some a" "cells h a = Some n" "path h (succ n) xs (Some tp)"
    by (rule path_ConsE)
  show ?case
  proof (cases "Some a = iter2")
    case True
    then have "erase_walk2 nd h l j iter2 cnt = ok (j, cnt, h)"
      using n by (subst erase_walk2.simps) simp
    then show ?thesis
      using True Cons.prems(1) n by auto
  next
    case False
    define h1 where "h1 = (if nd then h\<lparr>cells := (cells h)(a := None)\<rparr> else h)"
    have d: "nd \<Longrightarrow> delete_Node h (Some a) = Inr h1" "\<not> nd \<Longrightarrow> h1 = h"
      using n by (simp_all add: delete_Node_def h1_def)
    have fr: "cells h1 b = cells h b" if "b \<noteq> a" for b
      using that by (simp add: h1_def)
    have p1: "path h1 (succ n) xs (Some tp)"
      using n(3) Cons.prems(2) by (subst path_frame [where h = h]) (auto intro: fr)
    from Cons.IH [OF p1, of "cnt + 1"] Cons.prems obtain h' j' where r:
      "erase_walk2 nd h1 l (succ n) iter2 (cnt + 1) =
         ok (j', cnt + 1 + length (takeWhile (\<lambda>x. Some x \<noteq> iter2) xs), h')"
      "path h' j' (dropWhile (\<lambda>x. Some x \<noteq> iter2) xs) (Some tp)"
      "\<forall>b. b \<notin> set (takeWhile (\<lambda>x. Some x \<noteq> iter2) xs) \<longrightarrow> cells h' b = cells h1 b"
      "brk h' = brk h1" "junk h' = junk h1"
      by auto
    have "erase_walk2 nd h l j iter2 cnt =
        ok (j', cnt + length (takeWhile (\<lambda>x. Some x \<noteq> iter2) (a # xs)), h')"
      using n Cons.prems(3,4) d r(1) False
      by (subst erase_walk2.simps) (cases nd; simp add: it_incr_node cend_def)
    moreover have "\<forall>b. b \<notin> set (takeWhile (\<lambda>x. Some x \<noteq> iter2) (a # xs)) \<longrightarrow> cells h' b = cells h b"
      using r(3) fr False by auto
    moreover have "brk h' = brk h" "junk h' = junk h"
      using r(4,5) by (simp_all add: h1_def)
    moreover have "path h' j' (dropWhile (\<lambda>x. Some x \<noteq> iter2) (a # xs)) (Some tp)"
      using r(2) False by simp
    ultimately show ?thesis by blast
  qed
qed


lemma erase_after_loop_not_found:
  "path h (Some i) (i # rest) (Some tp) \<Longrightarrow> tail l = Some tp \<Longrightarrow> tp \<notin> set (i # rest) \<Longrightarrow>
   iter1 \<notin> Some ` set rest \<Longrightarrow> erase_after_loop nd h l iter1 (Some i) = ok (h, l)"
proof (induction rest arbitrary: i)
  case Nil
  have "walk h (Some i) 1 = Inr (Some tp)"
    using Nil.prems(1) by (intro walk1_path_single [where i = i]) simp
  then show ?case
    using Nil.prems by (subst erase_after_loop.simps) (simp add: it_plus_node cend_def)
next
  case (Cons r rest)
  from Cons.prems(1) obtain n where n: "cells h i = Some n" "succ n = Some r"
    "path h (Some r) (r # rest) (Some tp)"
    by (auto split: option.splits)
  have w: "walk h (Some i) 1 = Inr (Some r)"
    using Cons.prems(1) by (rule walk1_path_Cons)
  have ih: "erase_after_loop nd h l iter1 (Some r) = ok (h, l)"
    using Cons.IH [OF n(3) Cons.prems(2)] Cons.prems(3,4) by simp
  have ne: "Some r \<noteq> iter1" "r \<noteq> tp"
    using Cons.prems(3,4) by auto
  show ?case
    using Cons.prems(2,3) w ne n ih
    by (subst erase_after_loop.simps) (simp add: it_plus_node cend_def it_incr_node)
qed

lemma erase_after2_loop_not_found:
  "path h (Some i) (i # rest) (Some tp) \<Longrightarrow> tail l = Some tp \<Longrightarrow> tp \<notin> set (i # rest) \<Longrightarrow>
   iter1 \<notin> Some ` set rest \<Longrightarrow> erase_after2_loop nd h l iter1 iter2 (Some i) = ok (h, l)"
proof (induction rest arbitrary: i)
  case Nil
  have "walk h (Some i) 1 = Inr (Some tp)"
    using Nil.prems(1) by (intro walk1_path_single [where i = i]) simp
  then show ?case
    using Nil.prems by (subst erase_after2_loop.simps) (simp add: it_plus_node cend_def)
next
  case (Cons r rest)
  from Cons.prems(1) obtain n where n: "cells h i = Some n" "succ n = Some r"
    "path h (Some r) (r # rest) (Some tp)"
    by (auto split: option.splits)
  have w: "walk h (Some i) 1 = Inr (Some r)"
    using Cons.prems(1) by (rule walk1_path_Cons)
  have ih: "erase_after2_loop nd h l iter1 iter2 (Some r) = ok (h, l)"
    using Cons.IH [OF n(3) Cons.prems(2)] Cons.prems(3,4) by simp
  have ne: "Some r \<noteq> iter1" "r \<noteq> tp"
    using Cons.prems(3,4) by auto
  show ?case
    using Cons.prems(2,3) w ne n ih
    by (subst erase_after2_loop.simps) (simp add: it_plus_node cend_def it_incr_node)
qed

text \<open>
  The outer loops when \<open>iter1\<close> is the node \<open>a\<close> of the list: the nodes \<open>rm\<close> are unlinked
  (and deleted in the fast build), the nodes \<open>kp\<close> stay.
\<close>

lemma relink_after_walk:
  assumes p: "path h (Some i) [i] (Some a)"
    and w: "path h1 j' kp (Some tp)"
    and fr: "\<forall>b. b \<notin> set rm \<longrightarrow> cells h1 b = cells h b"
    and i: "i \<notin> set rm" "i \<notin> set kp"
  obtains h' where "store_succ h1 (Some i) j' = Inr h'" "path h' (Some i) (i # kp) (Some tp)"
    "\<forall>b. b \<noteq> i \<longrightarrow> cells h' b = cells h1 b"
    "\<forall>b. map_option data (cells h' b) = map_option data (cells h1 b)"
    "brk h' = brk h1" "junk h' = junk h1"
proof -
  from p obtain n where n: "cells h i = Some n"
    by (auto split: option.splits)
  then have n1: "cells h1 i = Some n"
    using fr i by simp
  define h' where "h' = h1\<lparr>cells := (cells h1)(i \<mapsto> n\<lparr>succ := j'\<rparr>)\<rparr>"
  have s: "store_succ h1 (Some i) j' = Inr h'"
    using n1 by (simp add: store_succ_def h'_def)
  have "path h' j' kp (Some tp)"
    using w i by (subst path_frame [where h = h1]) (auto simp: h'_def)
  then have pp: "path h' (Some i) (i # kp) (Some tp)"
    by (simp add: h'_def)
  show ?thesis
    by (rule that [OF s pp]) (auto simp: h'_def n1)
qed

lemma erase_after_loop_found:
  "path h (Some i) (i # pre @ a # post) (Some tp) \<Longrightarrow> distinct (i # pre @ a # post @ [tp]) \<Longrightarrow>
   tail l = Some tp \<Longrightarrow>
   \<exists>h'. erase_after_loop nd h l (Some a) (Some i) =
          ok (h', l\<lparr>size_fl := size_sub (size_fl l) (length (a # post))\<rparr>) \<and>
     path h' (Some i) (i # pre) (Some tp) \<and>
     (\<forall>b. b \<notin> set (i # pre @ a # post) \<longrightarrow> cells h' b = cells h b) \<and>
     (\<forall>b. b \<notin> set (a # post) \<longrightarrow> map_option data (cells h' b) = map_option data (cells h b)) \<and>
     brk h' = brk h \<and> junk h' = junk h"
proof (induction pre arbitrary: i)
  case Nil
  from Nil.prems(1) obtain n where n: "cells h i = Some n" "succ n = Some a"
    "path h (Some a) (a # post) (Some tp)"
    by (auto split: option.splits)
  have w: "walk h (Some i) 1 = Inr (Some a)"
    using Nil.prems(1) by (intro walk1_path_Cons [where i = i and rest = post]) simp
  from erase_walk_path [OF n(3), of l nd 0] Nil.prems obtain h1 where e:
    "erase_walk nd h l (Some a) (Some tp) 0 = ok (Some tp, length (a # post), h1)"
    "\<forall>b. b \<notin> set (a # post) \<longrightarrow> cells h1 b = cells h b" "brk h1 = brk h" "junk h1 = junk h"
    by auto
  have pi: "path h (Some i) [i] (Some a)"
    using n by simp
  have pt: "path h1 (Some tp) [] (Some tp)"
    by simp
  from relink_after_walk [OF pi pt e(2)] Nil.prems(2) obtain h' where r:
    "store_succ h1 (Some i) (Some tp) = Inr h'" "path h' (Some i) [i] (Some tp)"
    "\<forall>b. b \<noteq> i \<longrightarrow> cells h' b = cells h1 b"
    "\<forall>b. map_option data (cells h' b) = map_option data (cells h1 b)"
    "brk h' = brk h1" "junk h' = junk h1"
    by auto
  have "erase_after_loop nd h l (Some a) (Some i) =
      ok (h', l\<lparr>size_fl := size_sub (size_fl l) (length (a # post))\<rparr>)"
    using Nil.prems(2,3) w e(1) r(1)
    by (subst erase_after_loop.simps) (simp add: it_plus_node cend_def ok_def)
  then show ?case
    using r e by auto
next
  case (Cons r pre)
  from Cons.prems(1) obtain n where n: "cells h i = Some n" "succ n = Some r"
    "path h (Some r) (r # pre @ a # post) (Some tp)"
    by (auto split: option.splits)
  have w: "walk h (Some i) 1 = Inr (Some r)"
    using Cons.prems(1) by (intro walk1_path_Cons [where i = i and rest = "pre @ a # post"]) simp
  from Cons.IH [OF n(3) _ Cons.prems(3)] Cons.prems(2) obtain h' where ih:
    "erase_after_loop nd h l (Some a) (Some r) =
       ok (h', l\<lparr>size_fl := size_sub (size_fl l) (length (a # post))\<rparr>)"
    "path h' (Some r) (r # pre) (Some tp)"
    "\<forall>b. b \<notin> set (r # pre @ a # post) \<longrightarrow> cells h' b = cells h b"
    "\<forall>b. b \<notin> set (a # post) \<longrightarrow> map_option data (cells h' b) = map_option data (cells h b)"
    "brk h' = brk h" "junk h' = junk h"
    by auto
  have ne: "r \<noteq> a" "r \<noteq> tp" "i \<noteq> tp" "i \<notin> set (r # pre @ a # post)"
    using Cons.prems(2) by auto
  have "erase_after_loop nd h l (Some a) (Some i) =
      ok (h', l\<lparr>size_fl := size_sub (size_fl l) (length (a # post))\<rparr>)"
    using Cons.prems(3) w ne n ih(1)
    by (subst erase_after_loop.simps) (simp add: it_plus_node cend_def it_incr_node)
  moreover have "cells h' i = Some n"
    using ih(3) ne(4) n(1) by simp
  then have "path h' (Some i) (i # r # pre) (Some tp)"
    using ih(2) n(2) by simp
  ultimately show ?case
    using ih(3-6) by auto
qed

lemma erase_after2_loop_found:
  "path h (Some i) (i # pre @ a # post) (Some tp) \<Longrightarrow> distinct (i # pre @ a # post @ [tp]) \<Longrightarrow>
   tail l = Some tp \<Longrightarrow> rm = takeWhile (\<lambda>x. Some x \<noteq> iter2) (a # post) \<Longrightarrow>
   kp = dropWhile (\<lambda>x. Some x \<noteq> iter2) (a # post) \<Longrightarrow>
   \<exists>h'. erase_after2_loop nd h l (Some a) iter2 (Some i) =
          ok (h', l\<lparr>size_fl := size_sub (size_fl l) (length rm)\<rparr>) \<and>
     path h' (Some i) (i # pre @ kp) (Some tp) \<and>
     (\<forall>b. b \<notin> set (i # pre @ rm) \<longrightarrow> cells h' b = cells h b) \<and>
     (\<forall>b. b \<notin> set rm \<longrightarrow> map_option data (cells h' b) = map_option data (cells h b)) \<and>
     brk h' = brk h \<and> junk h' = junk h"
proof (induction pre arbitrary: i)
  case Nil
  from Nil.prems(1) obtain n where n: "cells h i = Some n" "succ n = Some a"
    "path h (Some a) (a # post) (Some tp)"
    by (auto split: option.splits)
  have w: "walk h (Some i) 1 = Inr (Some a)"
    using Nil.prems(1) by (intro walk1_path_Cons [where i = i and rest = post]) simp
  from erase_walk2_path [OF n(3), of l nd iter2 0] Nil.prems obtain h1 j' where e:
    "erase_walk2 nd h l (Some a) iter2 0 = ok (j', length rm, h1)"
    "path h1 j' kp (Some tp)"
    "\<forall>b. b \<notin> set rm \<longrightarrow> cells h1 b = cells h b" "brk h1 = brk h" "junk h1 = junk h"
    by auto
  have sub: "set rm \<subseteq> set (a # post)" "set kp \<subseteq> set (a # post)"
    using Nil.prems(4,5) by (auto dest: set_takeWhileD set_dropWhileD)
  have pi: "path h (Some i) [i] (Some a)"
    using n by simp
  have "i \<notin> set rm" "i \<notin> set kp"
    using sub Nil.prems(2) by auto
  from relink_after_walk [OF pi e(2) e(3) this] obtain h' where r:
    "store_succ h1 (Some i) j' = Inr h'" "path h' (Some i) (i # kp) (Some tp)"
    "\<forall>b. b \<noteq> i \<longrightarrow> cells h' b = cells h1 b"
    "\<forall>b. map_option data (cells h' b) = map_option data (cells h1 b)"
    "brk h' = brk h1" "junk h' = junk h1"
    by auto
  have "erase_after2_loop nd h l (Some a) iter2 (Some i) =
      ok (h', l\<lparr>size_fl := size_sub (size_fl l) (length rm)\<rparr>)"
    using Nil.prems(2,3) w e(1) r(1)
    by (subst erase_after2_loop.simps) (simp add: it_plus_node cend_def ok_def)
  then show ?case
    using r e by auto
next
  case (Cons r pre)
  from Cons.prems(1) obtain n where n: "cells h i = Some n" "succ n = Some r"
    "path h (Some r) (r # pre @ a # post) (Some tp)"
    by (auto split: option.splits)
  have w: "walk h (Some i) 1 = Inr (Some r)"
    using Cons.prems(1) by (intro walk1_path_Cons [where i = i and rest = "pre @ a # post"]) simp
  from Cons.IH [OF n(3) _ Cons.prems(3,4,5)] Cons.prems(2) obtain h' where ih:
    "erase_after2_loop nd h l (Some a) iter2 (Some r) =
       ok (h', l\<lparr>size_fl := size_sub (size_fl l) (length rm)\<rparr>)"
    "path h' (Some r) (r # pre @ kp) (Some tp)"
    "\<forall>b. b \<notin> set (r # pre @ rm) \<longrightarrow> cells h' b = cells h b"
    "\<forall>b. b \<notin> set rm \<longrightarrow> map_option data (cells h' b) = map_option data (cells h b)"
    "brk h' = brk h" "junk h' = junk h"
    by auto
  have sub: "set rm \<subseteq> set (a # post)"
    using Cons.prems(4) by (auto dest: set_takeWhileD)
  have ne: "r \<noteq> a" "r \<noteq> tp" "i \<noteq> tp" "i \<notin> set (r # pre @ rm)"
    using Cons.prems(2) sub by auto
  have "erase_after2_loop nd h l (Some a) iter2 (Some i) =
      ok (h', l\<lparr>size_fl := size_sub (size_fl l) (length rm)\<rparr>)"
    using Cons.prems(3) w ne n ih(1)
    by (subst erase_after2_loop.simps) (simp add: it_plus_node cend_def it_incr_node)
  moreover have "cells h' i = Some n"
    using ih(3) ne(4) n(1) by simp
  then have "path h' (Some i) (i # (r # pre) @ kp) (Some tp)"
    using ih(2) n(2) by simp
  ultimately show ?case
    using ih(3-6) by auto
qed


lemma data_at_preserved:
  "cells h b \<noteq> None \<Longrightarrow> map_option data (cells h' b) = map_option data (cells h b) \<Longrightarrow>
   data_at h' b = data_at h b"
  by (cases "cells h' b") (auto simp: data_at_def)

lemma erase_after_chain:
  assumes c: "chain h l (pre @ a # post)"
  obtains h' l' where "erase_after nd h l (Some a) = ok (h', l')" "chain h' l' pre"
    "map (data_at h') pre = map (data_at h) pre" "head l' = head l" "tail l' = tail l"
proof -
  from c obtain hp tp nt where f: "head l = Some hp" "tail l = Some tp"
    "path h (Some hp) (hp # pre @ a # post) (Some tp)" "distinct (hp # (pre @ a # post) @ [tp])"
    "cells h tp = Some nt" "succ nt = None" "size_fl l = length (pre @ a # post)"
    "\<forall>b \<in> set (hp # (pre @ a # post) @ [tp]). b < brk h"
    by (rule chainE)
  define l' where "l' = l\<lparr>size_fl := size_sub (size_fl l) (length (a # post))\<rparr>"
  from erase_after_loop_found [OF f(3) _ f(2), of nd] f(4) obtain h' where e:
    "erase_after_loop nd h l (Some a) (Some hp) = ok (h', l')"
    "path h' (Some hp) (hp # pre) (Some tp)"
    "\<forall>b. b \<notin> set (hp # pre @ a # post) \<longrightarrow> cells h' b = cells h b"
    "\<forall>b. b \<notin> set (a # post) \<longrightarrow> map_option data (cells h' b) = map_option data (cells h b)"
    "brk h' = brk h"
    unfolding l'_def by auto
  have ea: "erase_after nd h l (Some a) = ok (h', l')"
    using e(1) f(1,7) by (simp add: erase_after_def empty_fl_def cbefore_begin_def)
  have sz: "size_fl l' = length pre"
    using f(7) by (simp add: l'_def size_sub_le)
  have ch: "chain h' l' pre"
  proof (rule chainI [where hp = hp and tp = tp and nt = nt])
    show "cells h' tp = Some nt" using e(3) f(4,5) by auto
    show "distinct (hp # pre @ [tp])" using f(4) by auto
    show "\<forall>b \<in> set (hp # pre @ [tp]). b < brk h'" using f(8) e(5) by auto
  qed (use f e(2) sz in \<open>auto simp: l'_def\<close>)
  have "data_at h' b = data_at h b" if "b \<in> set pre" for b
  proof (rule data_at_preserved)
    show "cells h b \<noteq> None" using that by (intro path_live [OF f(3)]) simp
    show "map_option data (cells h' b) = map_option data (cells h b)"
      using that f(4) e(4) by auto
  qed
  then have "map (data_at h') pre = map (data_at h) pre" by simp
  with ea ch show ?thesis
    by (rule that) (simp_all add: l'_def)
qed

lemma erase_after2_chain:
  assumes c: "chain h l (pre @ a # post)"
    and kp: "kp = dropWhile (\<lambda>x. Some x \<noteq> iter2) (a # post)"
  obtains h' l' where "erase_after2 nd h l (Some a) iter2 = ok (h', l')" "chain h' l' (pre @ kp)"
    "map (data_at h') (pre @ kp) = map (data_at h) (pre @ kp)"
proof -
  from c obtain hp tp nt where f: "head l = Some hp" "tail l = Some tp"
    "path h (Some hp) (hp # pre @ a # post) (Some tp)" "distinct (hp # (pre @ a # post) @ [tp])"
    "cells h tp = Some nt" "succ nt = None" "size_fl l = length (pre @ a # post)"
    "\<forall>b \<in> set (hp # (pre @ a # post) @ [tp]). b < brk h"
    by (rule chainE)
  define rm where "rm = takeWhile (\<lambda>x. Some x \<noteq> iter2) (a # post)"
  have split: "a # post = rm @ kp"
    unfolding rm_def kp by simp
  define l' where "l' = l\<lparr>size_fl := size_sub (size_fl l) (length rm)\<rparr>"
  from erase_after2_loop_found [OF f(3) _ f(2) rm_def kp, of nd] f(4) obtain h' where e:
    "erase_after2_loop nd h l (Some a) iter2 (Some hp) = ok (h', l')"
    "path h' (Some hp) (hp # pre @ kp) (Some tp)"
    "\<forall>b. b \<notin> set (hp # pre @ rm) \<longrightarrow> cells h' b = cells h b"
    "\<forall>b. b \<notin> set rm \<longrightarrow> map_option data (cells h' b) = map_option data (cells h b)"
    "brk h' = brk h"
    unfolding l'_def by auto
  have ea: "erase_after2 nd h l (Some a) iter2 = ok (h', l')"
    using e(1) f(1,7) by (simp add: erase_after2_def empty_fl_def cbefore_begin_def)
  have len: "length (a # post) = length rm + length kp"
    unfolding split by simp
  have sz: "size_fl l' = length (pre @ kp)"
    using f(7) len by (simp add: l'_def size_sub_le)
  have d: "distinct (hp # pre @ rm @ kp @ [tp])"
    using f(4) unfolding split by simp
  have ch: "chain h' l' (pre @ kp)"
  proof (rule chainI [where hp = hp and tp = tp and nt = nt])
    show "cells h' tp = Some nt" using e(3) d f(5) by auto
    show "distinct (hp # (pre @ kp) @ [tp])" using d by auto
    show "\<forall>b \<in> set (hp # (pre @ kp) @ [tp]). b < brk h'"
      using f(8) e(5) unfolding split by auto
    show "path h' (Some hp) (hp # pre @ kp) (Some tp)" by (rule e(2))
  qed (use f sz in \<open>auto simp: l'_def\<close>)
  have "data_at h' b = data_at h b" if "b \<in> set (pre @ kp)" for b
  proof (rule data_at_preserved)
    have "b \<in> set (hp # pre @ a # post)" using that unfolding split by auto
    then show "cells h b \<noteq> None" by (rule path_live [OF f(3)])
    show "map_option data (cells h' b) = map_option data (cells h b)"
      using that d e(4) by auto
  qed
  then have "map (data_at h') (pre @ kp) = map (data_at h) (pre @ kp)" by simp
  with ea ch show ?thesis
    by (rule that)
qed

lemma example_list:
  obtains h l x y z where "from_elems (empty_heap (0 :: int)) [1, 2, 3] = Inr (h, l)"
    "chain h l [x, y, z]" "data_at h x = 1" "data_at h y = 2" "data_at h z = 3"
proof -
  obtain h l as where b: "from_elems (empty_heap (0 :: int)) [1, 2, 3] = Inr (h, l)"
    "chain h l as" "map (data_at h) as = [1, 2, 3]"
    by (rule from_elems_chain)
  from b(3) obtain x y z where "as = [x, y, z]"
    by (auto simp: map_eq_Cons_conv)
  with b show ?thesis
    using that by auto
qed

text \<open>
  C5, as the code has it. For every well-formed list and every cursor \<open>iter1\<close> at a real
  element \<open>a\<close>, in either build: \<^verbatim>\<open>erase_after(iter1)\<close> removes the element at \<open>iter1\<close>
  itself and every element after it, so that exactly the elements before \<open>iter1\<close> remain;
  \<^verbatim>\<open>erase_after(iter1, iter2)\<close> removes the element at \<open>iter1\<close> and the elements after it
  up to but excluding \<open>iter2\<close> (all of them if \<open>iter2\<close> is not met), so that the elements before
  \<open>iter1\<close> and those from \<open>iter2\<close> on remain, unchanged and in order. The list stays well
  formed, with \<^verbatim>\<open>size_\<close> the number of remaining elements.
\<close>

theorem erase_after_removes_from_iter1:
  assumes "chain h l (pre @ a # post)"
  shows "(\<exists>h' l'. erase_after nd h l (Some a) = ok (h', l') \<and> chain h' l' pre \<and>
            to_list nd h' l' = ok (map (data_at h) pre) \<and> size_fl l' = length pre) \<and>
         (\<exists>h' l'. erase_after2 nd h l (Some a) iter2 = ok (h', l') \<and>
            chain h' l' (pre @ dropWhile (\<lambda>x. Some x \<noteq> iter2) (a # post)) \<and>
            to_list nd h' l' = ok (map (data_at h) (pre @ dropWhile (\<lambda>x. Some x \<noteq> iter2) (a # post))) \<and>
            size_fl l' = length (pre @ dropWhile (\<lambda>x. Some x \<noteq> iter2) (a # post)))"
proof
  from assms obtain h' l' where e: "erase_after nd h l (Some a) = ok (h', l')" "chain h' l' pre"
    "map (data_at h') pre = map (data_at h) pre"
    by (rule erase_after_chain)
  have "to_list nd h' l' = ok (map (data_at h) pre)"
    using to_list_chain [OF e(2)] e(3) by simp
  then show "\<exists>h' l'. erase_after nd h l (Some a) = ok (h', l') \<and> chain h' l' pre \<and>
            to_list nd h' l' = ok (map (data_at h) pre) \<and> size_fl l' = length pre"
    using e chain_size [OF e(2)] by blast
next
  define kp where "kp = dropWhile (\<lambda>x. Some x \<noteq> iter2) (a # post)"
  from assms kp_def obtain h' l' where e: "erase_after2 nd h l (Some a) iter2 = ok (h', l')"
    "chain h' l' (pre @ kp)" "map (data_at h') (pre @ kp) = map (data_at h) (pre @ kp)"
    by (rule erase_after2_chain)
  have "to_list nd h' l' = ok (map (data_at h) (pre @ kp))"
    using to_list_chain [OF e(2)] e(3) by simp
  then show "\<exists>h' l'. erase_after2 nd h l (Some a) iter2 = ok (h', l') \<and>
            chain h' l' (pre @ dropWhile (\<lambda>x. Some x \<noteq> iter2) (a # post)) \<and>
            to_list nd h' l' = ok (map (data_at h) (pre @ dropWhile (\<lambda>x. Some x \<noteq> iter2) (a # post))) \<and>
            size_fl l' = length (pre @ dropWhile (\<lambda>x. Some x \<noteq> iter2) (a # post))"
    using e chain_size [OF e(2)] unfolding kp_def by blast
qed

theorem erase_after_removes_from_iter1_witness:
  "\<exists>h l x y z. from_elems (empty_heap (0 :: int)) [1, 2, 3] = Inr (h, l) \<and>
     chain h l ([x] @ y # [z]) \<and>
     (\<exists>h' l'. erase_after False h l (Some y) = ok (h', l') \<and> to_list False h' l' = ok [1] \<and>
        size_fl l' = 1) \<and>
     (\<exists>h' l'. erase_after2 False h l (Some y) (Some z) = ok (h', l') \<and>
        to_list False h' l' = ok [1, 3] \<and> size_fl l' = 2)"
proof -
  obtain h l x y z where b: "from_elems (empty_heap (0 :: int)) [1, 2, 3] = Inr (h, l)"
    "chain h l [x, y, z]" "data_at h x = 1" "data_at h y = 2" "data_at h z = 3"
    by (rule example_list)
  have c: "chain h l ([x] @ y # [z])"
    using b(2) by simp
  have yz: "y \<noteq> z"
    using b(2) by (auto simp: chain_iff)
  from erase_after_removes_from_iter1 [OF c, of False "Some z"] b(3,5) yz
  have "(\<exists>h' l'. erase_after False h l (Some y) = ok (h', l') \<and> to_list False h' l' = ok [1] \<and>
        size_fl l' = 1) \<and>
     (\<exists>h' l'. erase_after2 False h l (Some y) (Some z) = ok (h', l') \<and>
        to_list False h' l' = ok [1, 3] \<and> size_fl l' = 2)"
    by auto
  with b(1) c show ?thesis
    by blast
qed

text \<open>
  C5 as stated fails on \<open>[1, 2, 3]\<close> with \<open>iter1\<close> the cursor at the element 2
  (\<^verbatim>\<open>begin() + 1\<close>): after \<^verbatim>\<open>erase_after(iter1)\<close>, and after
  \<^verbatim>\<open>erase_after(iter1, end())\<close>, the list is \<open>[1]\<close>; the element at \<open>iter1\<close> has not
  remained.
\<close>

theorem erase_after_removes_iter1_itself:
  "on_list 0 [1, 2, 3 :: int] (\<lambda>h l.
     obnd (Some (cbegin h l)) (\<lambda>b.
     obnd (Some (it_plus False h l b 1)) (\<lambda>iter1.
     obnd (erase_after False h l iter1) (\<lambda>(h1, l1).
     obnd (to_list False h1 l1) (\<lambda>xs. ok (it_deref False h l iter1, xs))))))
   = ok (Inr 2, [1])
   \<and> on_list 0 [1, 2, 3 :: int] (\<lambda>h l.
     obnd (Some (cbegin h l)) (\<lambda>b.
     obnd (Some (it_plus False h l b 1)) (\<lambda>iter1.
     obnd (erase_after2 False h l iter1 (cend l)) (\<lambda>(h1, l1).
     obnd (to_list False h1 l1) (\<lambda>xs. ok (it_deref False h l iter1, xs))))))
   = ok (Inr 2, [1])"
  by (simp add: eval_defs erase_after_def erase_after_loop.simps erase_walk.simps
      erase_after2_def erase_after2_loop.simps erase_walk2.simps)

text \<open>
  C7, as the code has it. For every well-formed list, in either build: \<^verbatim>\<open>clear()\<close>, which is
  \<^verbatim>\<open>erase_after(cbegin())\<close>, returns and leaves the list empty, well formed, with \<^verbatim>\<open>size_\<close>
  0 and the same two sentinels; \<^verbatim>\<open>erase_after(before_begin())\<close> removes nothing: it
  returns with the store and the list as they were.
\<close>

theorem clear_empties_list:
  assumes "chain h l as"
  shows "\<exists>h' l'. clear nd h l = ok (h', l') \<and>
           (\<exists>b. cbegin h l = Inr b \<and> erase_after nd h l b = ok (h', l')) \<and>
           chain h' l' [] \<and> to_list nd h' l' = ok [] \<and> size_fl l' = 0 \<and>
           head l' = head l \<and> tail l' = tail l \<and>
           erase_after nd h l (cbefore_begin l) = ok (h, l)"
proof -
  from assms obtain hp tp nt where f: "head l = Some hp" "tail l = Some tp"
    "path h (Some hp) (hp # as) (Some tp)" "distinct (hp # as @ [tp])"
    "size_fl l = length as"
    by (rule chainE)
  have nf: "erase_after nd h l (cbefore_begin l) = ok (h, l)"
  proof (cases "as = []")
    case True
    then show ?thesis using f(5) by (simp add: erase_after_def empty_fl_def)
  next
    case False
    have "erase_after_loop nd h l (Some hp) (Some hp) = ok (h, l)"
      using f by (intro erase_after_loop_not_found [where tp = tp]) auto
    then show ?thesis
      using False f(1,5) by (simp add: erase_after_def empty_fl_def cbefore_begin_def)
  qed
  have "\<exists>h' l' b. cbegin h l = Inr b \<and> erase_after nd h l b = ok (h', l') \<and> chain h' l' [] \<and>
      head l' = head l \<and> tail l' = tail l"
  proof (cases as)
    case Nil
    from f(3) Nil obtain n where "cells h hp = Some n" "succ n = Some tp"
      by (auto split: option.splits)
    then have "cbegin h l = Inr (Some tp)"
      using f(1) by (simp add: cbegin_def)
    moreover have "erase_after nd h l (Some tp) = ok (h, l)"
      using Nil f(5) by (simp add: erase_after_def empty_fl_def)
    ultimately show ?thesis using assms Nil by auto
  next
    case (Cons a post)
    from f(3) Cons obtain n where "cells h hp = Some n" "succ n = Some a"
      by (auto split: option.splits)
    then have b: "cbegin h l = Inr (Some a)"
      using f(1) by (simp add: cbegin_def)
    have "chain h l ([] @ a # post)"
      using assms Cons by simp
    then obtain h' l' where "erase_after nd h l (Some a) = ok (h', l')" "chain h' l' []"
      "head l' = head l" "tail l' = tail l"
      by (rule erase_after_chain)
    with b show ?thesis by blast
  qed
  then obtain h' l' b where r: "cbegin h l = Inr b" "erase_after nd h l b = ok (h', l')"
    "chain h' l' []" "head l' = head l" "tail l' = tail l"
    by blast
  have "clear nd h l = ok (h', l')"
    using r(1,2) by (simp add: clear_def)
  moreover have "to_list nd h' l' = ok []"
    using to_list_chain [OF r(3)] by simp
  moreover have "size_fl l' = 0"
    using chain_size [OF r(3)] by simp
  ultimately show ?thesis
    using r nf by blast
qed

theorem clear_empties_list_witness:
  "\<exists>h l as. from_elems (empty_heap (0 :: int)) [1, 2, 3] = Inr (h, l) \<and> chain h l as \<and>
     (\<exists>h' l'. clear False h l = ok (h', l') \<and> to_list False h' l' = ok [] \<and> size_fl l' = 0 \<and>
        head l' = head l \<and> tail l' = tail l) \<and>
     erase_after False h l (cbefore_begin l) = ok (h, l) \<and> to_list False h l = ok [1, 2, 3]"
proof -
  obtain h l as where b: "from_elems (empty_heap (0 :: int)) [1, 2, 3] = Inr (h, l)"
    "chain h l as" "map (data_at h) as = [1, 2, 3]"
    by (rule from_elems_chain)
  have t: "to_list False h l = ok [1, 2, 3]"
    using to_list_chain [OF b(2)] b(3) by simp
  from clear_empties_list [OF b(2), of False]
  have "(\<exists>h' l'. clear False h l = ok (h', l') \<and> to_list False h' l' = ok [] \<and> size_fl l' = 0 \<and>
        head l' = head l \<and> tail l' = tail l) \<and>
     erase_after False h l (cbefore_begin l) = ok (h, l)"
    by blast
  with b(1,2) t show ?thesis
    by blast
qed

text \<open>
  C7 as stated fails on \<open>[1, 2, 3]\<close>: \<^verbatim>\<open>clear()\<close> leaves the list empty with size 0, while
  \<^verbatim>\<open>erase_after(before_begin())\<close> leaves the elements \<open>[1, 2, 3]\<close> and size 3.
\<close>

theorem clear_differs_from_erase_after_before_begin:
  "on_list 0 [1, 2, 3 :: int] (\<lambda>h l.
     obnd (clear False h l) (\<lambda>(h1, l1).
     obnd (to_list False h1 l1) (\<lambda>xs.
     obnd (erase_after False h l (cbefore_begin l)) (\<lambda>(h2, l2).
     obnd (to_list False h2 l2) (\<lambda>ys. ok (xs, size_fl l1, ys, size_fl l2))))))
   = ok ([], 0, [1, 2, 3], 3)"
  by (simp add: eval_defs clear_def erase_after_def erase_after_loop.simps erase_walk.simps)

subsection \<open>sorted\<close>

lemma in_order_Cons2:
  "in_order asc (a # b # xs) \<longleftrightarrow> (if asc then a \<le> b else b \<le> a) \<and> in_order asc (b # xs)"
proof -
  have "transp (\<lambda>a b :: 'a. if asc then a \<le> b else b \<le> a)"
    by (auto simp: transp_def)
  then show ?thesis
    unfolding in_order_def by (rule sorted_wrt2)
qed

lemma in_order_short [simp]: "in_order asc []" "in_order asc [x]"
  by (simp_all add: in_order_def)

lemma sorted_loop_path:
  "path h (Some a) (a # rest) (Some tp) \<Longrightarrow> tail l = Some tp \<Longrightarrow> head l = Some hp \<Longrightarrow>
   hp \<notin> set (a # rest) \<Longrightarrow> tp \<notin> set (a # rest) \<Longrightarrow>
   sorted_loop nd h l asc (Some a) = ok (in_order asc (map (data_at h) (a # rest)))"
proof (induction rest arbitrary: a)
  case Nil
  have "walk h (Some a) 1 = Inr (Some tp)"
    using Nil.prems(1) by (intro walk1_path_single [where i = a]) simp
  then show ?case
    using Nil.prems by (subst sorted_loop.simps) (simp add: it_plus_node cend_def)
next
  case (Cons b rest)
  from Cons.prems(1) obtain n m where n: "cells h a = Some n" "succ n = Some b"
    "path h (Some b) (b # rest) (Some tp)" "cells h b = Some m"
    by (auto split: option.splits)
  have ih: "sorted_loop nd h l asc (Some b) = ok (in_order asc (map (data_at h) (b # rest)))"
    using Cons.IH [OF n(3) Cons.prems(2,3)] Cons.prems(4,5) by simp
  show ?case
    using Cons.prems(2-5) n ih
    by (subst sorted_loop.simps)
      (auto simp: it_plus_node it_deref_node it_incr_node deref_plus_def cend_def data_at_def
        in_order_Cons2)
qed

lemma sorted_fl_chain:
  assumes c: "chain h l as"
  shows "sorted_fl nd h l asc = ok (in_order asc (map (data_at h) as))"
proof (cases as)
  case Nil
  then show ?thesis using chain_size [OF c] by (simp add: sorted_fl_def)
next
  case (Cons a rest)
  from c obtain hp tp nt where f: "head l = Some hp" "tail l = Some tp"
    "path h (Some hp) (hp # as) (Some tp)" "distinct (hp # as @ [tp])"
    by (rule chainE)
  from f(3) Cons obtain n where n: "cells h hp = Some n" "succ n = Some a"
    "path h (Some a) (a # rest) (Some tp)"
    by (auto split: option.splits)
  have sl: "sorted_loop nd h l asc (Some a) = ok (in_order asc (map (data_at h) (a # rest)))"
    using n(3) f Cons by (intro sorted_loop_path [where tp = tp and hp = hp]) auto
  show ?thesis
  proof (cases rest)
    case Nil
    then show ?thesis using Cons chain_size [OF c] by (simp add: sorted_fl_def)
  next
    case (Cons b rest')
    then have "\<not> size_fl l < 2"
      using \<open>as = a # rest\<close> chain_size [OF c] by simp
    then show ?thesis
      using sl n f(1) \<open>as = a # rest\<close> by (simp add: sorted_fl_def cbegin_def)
  qed
qed

lemma ensure_sorted_chain:
  "chain h l as \<Longrightarrow> in_order asc (map (data_at h) as) \<Longrightarrow> ensure_sorted h l target asc = ok h"
  by (simp add: ensure_sorted_def sorted_fl_chain)

subsection \<open>Frames\<close>

lemma chain_frame:
  assumes c: "chain h l as"
    and fr: "\<And>a. a < brk h \<Longrightarrow> cells h' a = cells h a"
    and b: "brk h \<le> brk h'"
  shows "chain h' l as" "map (data_at h') as = map (data_at h) as"
proof -
  from c obtain hp tp nt where f: "head l = Some hp" "tail l = Some tp"
    "path h (Some hp) (hp # as) (Some tp)" "distinct (hp # as @ [tp])"
    "cells h tp = Some nt" "succ nt = None" "size_fl l = length as"
    "\<forall>a \<in> set (hp # as @ [tp]). a < brk h"
    by (rule chainE)
  have p: "path h' (Some hp) (hp # as) (Some tp)"
    using f(3,8) by (subst path_frame [where h = h]) (auto intro: fr)
  show "chain h' l as"
  proof (rule chainI [where hp = hp and tp = tp and nt = nt])
    show "cells h' tp = Some nt" using f(5,8) fr by auto
    show "\<forall>a \<in> set (hp # as @ [tp]). a < brk h'" using f(8) b by auto
  qed (use f p in auto)
  have "data_at h' a = data_at h a" if "a \<in> set as" for a
    using that f(8) fr by (auto simp: data_at_def)
  then show "map (data_at h') as = map (data_at h) as" by simp
qed


subsection \<open>The copy made by merge\<close>

lemma copy_loop_path:
  "path h it xs (Some tp2) \<Longrightarrow> tail src = Some tp2 \<Longrightarrow> head src = Some hp2 \<Longrightarrow>
   hp2 \<notin> set xs \<Longrightarrow> tp2 \<notin> set xs \<Longrightarrow> \<forall>a \<in> set xs. a < b0 \<Longrightarrow>
   chain h dst ds \<Longrightarrow> head dst = Some hpd \<Longrightarrow> tail dst = Some tpd \<Longrightarrow>
   \<forall>a \<in> set (hpd # ds @ [tpd]). b0 \<le> a \<Longrightarrow>
   \<exists>h' dst' ds' tpd'. copy_loop nd h src dst it (Some tp2) = ok (h', dst') \<and> chain h' dst' ds' \<and>
      map (data_at h') ds' = map (data_at h) ds @ map (data_at h) xs \<and>
      (\<forall>a. a < b0 \<longrightarrow> cells h' a = cells h a) \<and> brk h \<le> brk h' \<and> junk h' = junk h \<and>
      head dst' = Some hpd \<and> tail dst' = Some tpd' \<and> (\<forall>a \<in> set (hpd # ds' @ [tpd']). b0 \<le> a)"
proof (induction xs arbitrary: h it dst ds tpd)
  case Nil
  then show ?case
    by (subst copy_loop.simps) auto
next
  case (Cons a xs)
  from Cons.prems(1) obtain n where n: "it = Some a" "cells h a = Some n" "path h (succ n) xs (Some tp2)"
    by (rule path_ConsE)
  have ne: "tail src \<noteq> Some a" "head src \<noteq> Some a" "a < b0"
    using Cons.prems(2-6) by auto
  have dr: "it_deref nd h src (Some a) = Inr (data n)"
    using n ne by (simp add: it_deref_node)
  from Cons.prems(7) obtain h1 tp where pb: "tail dst = Some tp"
    "push_back h dst (data n) = Inr (h1, dst\<lparr>tail := Some (brk h), size_fl := size_fl dst + 1\<rparr>)"
    "chain h1 (dst\<lparr>tail := Some (brk h), size_fl := size_fl dst + 1\<rparr>) (ds @ [tp])"
    "map (data_at h1) (ds @ [tp]) = map (data_at h) ds @ [data n]"
    "brk h1 = Suc (brk h)" "junk h1 = junk h"
    "\<And>a. a \<noteq> brk h \<Longrightarrow> a \<noteq> tp \<Longrightarrow> cells h1 a = cells h a"
    by (rule push_back_chain [where x = "data n"]) blast
  define dst1 where "dst1 = dst\<lparr>tail := Some (brk h), size_fl := size_fl dst + 1\<rparr>"
  have tp: "tp = tpd"
    using pb(1) Cons.prems(9) by simp
  have "tpd < brk h"
    using Cons.prems(7,9) by (auto simp: chain_iff)
  then have b: "b0 \<le> brk h"
    using Cons.prems(10) by auto
  have fr: "cells h1 x = cells h x" if "x < b0" for x
    using that b Cons.prems(10) tp by (intro pb(7)) auto
  have inc: "it_incr nd h1 src (Some a) = Inr (succ n)"
    using n ne fr by (simp add: it_incr_node)
  have p1: "path h1 (succ n) xs (Some tp2)"
    using n(3) Cons.prems(6) by (subst path_frame [where h = h]) (auto intro: fr)
  have ge: "\<forall>x \<in> set (hpd # (ds @ [tpd]) @ [brk h]). b0 \<le> x"
    using Cons.prems(10) b by auto
  have q: "hp2 \<notin> set xs" "tp2 \<notin> set xs" "\<forall>a \<in> set xs. a < b0"
    using Cons.prems(4,5,6) by auto
  have ch1: "chain h1 dst1 (ds @ [tpd])"
    using pb(3) tp by (simp add: dst1_def)
  have hd1: "head dst1 = Some hpd" "tail dst1 = Some (brk h)"
    using Cons.prems(8) by (simp_all add: dst1_def)
  from Cons.IH [OF p1 Cons.prems(2,3) q ch1 hd1 ge]
  obtain h' dst' ds' tpd' where r:
    "copy_loop nd h1 src dst1 (succ n) (Some tp2) = ok (h', dst')" "chain h' dst' ds'"
    "map (data_at h') ds' = map (data_at h1) (ds @ [tpd]) @ map (data_at h1) xs"
    "\<forall>a. a < b0 \<longrightarrow> cells h' a = cells h1 a" "brk h1 \<le> brk h'" "junk h' = junk h1"
    "head dst' = Some hpd" "tail dst' = Some tpd'" "\<forall>a \<in> set (hpd # ds' @ [tpd']). b0 \<le> a"
    by blast
  have c: "copy_loop nd h src dst it (Some tp2) = ok (h', dst')"
    using n(1) Cons.prems(5) dr pb(2) inc r(1)
    by (subst copy_loop.simps) (auto simp: dst1_def)
  have "data_at h1 x = data_at h x" if "x \<in> set xs" for x
    using that Cons.prems(6) fr by (auto simp: data_at_def)
  then have "map (data_at h1) xs = map (data_at h) xs"
    by simp
  then have m: "map (data_at h') ds' = map (data_at h) ds @ map (data_at h) (a # xs)"
    using r(3) pb(4) tp n(2) by (simp add: data_at_def)
  have "\<forall>a. a < b0 \<longrightarrow> cells h' a = cells h a"
    using r(4) fr by auto
  moreover have "brk h \<le> brk h'" "junk h' = junk h"
    using r(5,6) pb(5,6) by auto
  ultimately show ?case
    using c r(2,7,8,9) m by blast
qed

lemma copy_list_chain:
  assumes c: "chain h src bs"
  obtains h' nl cs hpc tpc where "copy_list nd h src = ok (h', nl)" "chain h' nl cs"
    "map (data_at h') cs = map (data_at h) bs" "\<And>a. a < brk h \<Longrightarrow> cells h' a = cells h a"
    "brk h \<le> brk h'" "head nl = Some hpc" "tail nl = Some tpc"
    "\<forall>a \<in> set (hpc # cs @ [tpc]). brk h \<le> a"
proof -
  from c obtain hp2 tp2 where f: "head src = Some hp2" "tail src = Some tp2"
    "path h (Some hp2) (hp2 # bs) (Some tp2)" "distinct (hp2 # bs @ [tp2])"
    "\<forall>a \<in> set (hp2 # bs @ [tp2]). a < brk h"
    by (rule chainE)
  obtain h0 l0 where i: "init_list h = Inr (h0, l0)" "chain h0 l0 []" "brk h0 = brk h + 2"
    "\<And>a. a < brk h \<Longrightarrow> cells h0 a = cells h a"
    "head l0 = Some (brk h)" "tail l0 = Some (Suc (brk h))"
    by (rule init_list_chain [of h]) blast
  from f(3) obtain n where n: "cells h hp2 = Some n" "path h (succ n) bs (Some tp2)"
    by (auto split: option.splits)
  have cb: "cbegin h0 src = Inr (succ n)"
    using n(1) f(1,5) i(4) by (simp add: cbegin_def)
  have p0: "path h0 (succ n) bs (Some tp2)"
    using n(2) f(5) by (subst path_frame [where h = h]) (auto intro: i(4))
  from copy_loop_path [OF p0 f(2,1) _ _ _ i(2,5,6), of "brk h" nd] f(4,5)
  obtain h' dst' ds' tpd' where r:
    "copy_loop nd h0 src l0 (succ n) (Some tp2) = ok (h', dst')" "chain h' dst' ds'"
    "map (data_at h') ds' = map (data_at h0) bs"
    "\<forall>a. a < brk h \<longrightarrow> cells h' a = cells h0 a" "brk h0 \<le> brk h'"
    "head dst' = Some (brk h)" "tail dst' = Some tpd'"
    "\<forall>a \<in> set (brk h # ds' @ [tpd']). brk h \<le> a"
    by auto
  have "data_at h0 x = data_at h x" if "x \<in> set bs" for x
    using that f(5) i(4) by (auto simp: data_at_def)
  then have m: "map (data_at h') ds' = map (data_at h) bs"
    using r(3) by simp
  have cl: "copy_list nd h src = ok (h', dst')"
    using i(1) cb r(1) f(2) by (simp add: copy_list_def cend_def)
  show ?thesis
  proof (rule that [OF cl r(2) m _ _ r(6,7,8)])
    show "\<And>a. a < brk h \<Longrightarrow> cells h' a = cells h a" using r(4) i(4) by simp
    show "brk h \<le> brk h'" using r(5) i(3) by simp
  qed
qed

subsection \<open>The loops of merge\<close>

lemma map_merge_nodes:
  "map d (merge_nodes d asc as cs) = merge_elems asc (map d as) (map d cs)"
  by (induction d asc as cs rule: merge_nodes.induct) auto

lemma set_merge_nodes: "set (merge_nodes d asc as cs) \<subseteq> set as \<union> set cs"
  by (induction d asc as cs rule: merge_nodes.induct) auto

lemma distinct_merge_nodes: "distinct (as @ cs) \<Longrightarrow> distinct (merge_nodes d asc as cs)"
proof (induction d asc as cs rule: merge_nodes.induct)
  case (3 d asc a as c cs)
  have "a \<notin> set (merge_nodes d asc as cs)" "a \<notin> set (merge_nodes d asc as (c # cs))"
    "c \<notin> set (merge_nodes d asc (a # as) cs)"
    using "3.prems" set_merge_nodes [of d asc as cs] set_merge_nodes [of d asc as "c # cs"]
      set_merge_nodes [of d asc "a # as" cs]
    by auto
  then show ?case using 3 by auto
qed auto

lemma merge_nodes_Nil: "merge_nodes d asc as cs = [] \<longleftrightarrow> as = [] \<and> cs = []"
  by (induction d asc as cs rule: merge_nodes.induct) auto

lemma take_node_live:
  "cells h hh = Some nh \<Longrightarrow> cells h x = Some nx \<Longrightarrow> hh \<noteq> x \<Longrightarrow>
   take_node h (Some hh) (Some x) = Inr (h\<lparr>cells := (cells h)(hh \<mapsto> nh\<lparr>succ := Some x\<rparr>)\<rparr>, succ nx)"
  by (simp add: take_node_def store_succ_def)

lemma merge_loop2_path:
  "path h x xs (Some e) \<Longrightarrow> distinct xs \<Longrightarrow> e \<notin> set xs \<Longrightarrow> hh \<notin> set xs \<Longrightarrow> cells h hh \<noteq> None \<Longrightarrow>
   \<exists>h'. merge_loop2 h (Some e) x (Some hh) n = ok (h', Some (last (hh # xs)), n + length xs) \<and>
     (xs = [] \<longrightarrow> h' = h) \<and> (xs \<noteq> [] \<longrightarrow> path h' (Some hh) (hh # xs) (Some e)) \<and>
     (\<forall>b. b \<notin> set (hh # xs) \<longrightarrow> cells h' b = cells h b) \<and>
     (\<forall>b. map_option data (cells h' b) = map_option data (cells h b)) \<and>
     brk h' = brk h \<and> junk h' = junk h"
proof (induction xs arbitrary: h x hh n)
  case Nil
  then show ?case
    by (subst merge_loop2.simps) (simp add: in_range_def)
next
  case (Cons a xs)
  from Cons.prems(1) obtain na where na: "x = Some a" "cells h a = Some na" "path h (succ na) xs (Some e)"
    by (rule path_ConsE)
  from Cons.prems(5) obtain nh where nh: "cells h hh = Some nh"
    by auto
  define h1 where "h1 = h\<lparr>cells := (cells h)(hh \<mapsto> nh\<lparr>succ := Some a\<rparr>)\<rparr>"
  have ne: "hh \<noteq> a" "a \<noteq> e" "a \<notin> set xs" "hh \<notin> set xs"
    using Cons.prems(2,3,4) by auto
  have tk: "take_node h (Some hh) (Some a) = Inr (h1, succ na)"
    using nh na ne by (simp add: take_node_live h1_def)
  have c1: "cells h1 b = cells h b" if "b \<noteq> hh" for b
    using that by (simp add: h1_def)
  have p1: "path h1 (succ na) xs (Some e)"
    using na(3) ne by (subst path_frame [where h = h]) (auto intro: c1)
  have l1: "cells h1 a \<noteq> None"
    using na ne by (simp add: c1)
  from Cons.IH [OF p1 _ _ ne(3) l1, of "n + 1"] Cons.prems(2,3) obtain h' where r:
    "merge_loop2 h1 (Some e) (succ na) (Some a) (n + 1) = ok (h', Some (last (a # xs)), n + 1 + length xs)"
    "xs = [] \<longrightarrow> h' = h1" "xs \<noteq> [] \<longrightarrow> path h' (Some a) (a # xs) (Some e)"
    "\<forall>b. b \<notin> set (a # xs) \<longrightarrow> cells h' b = cells h1 b"
    "\<forall>b. map_option data (cells h' b) = map_option data (cells h1 b)"
    "brk h' = brk h1" "junk h' = junk h1"
    by auto
  have m: "merge_loop2 h (Some e) x (Some hh) n = ok (h', Some (last (hh # a # xs)), n + length (a # xs))"
    using na(1) ne tk r(1) by (subst merge_loop2.simps) (simp add: in_range_def)
  have pa: "path h' (Some a) (a # xs) (Some e)"
  proof (cases "xs = []")
    case True
    then show ?thesis using r(2) na c1 ne by simp
  next
    case False
    then show ?thesis using r(3) by simp
  qed
  have "cells h' hh = Some (nh\<lparr>succ := Some a\<rparr>)"
    using r(4) ne by (simp add: h1_def)
  then have pp: "path h' (Some hh) (hh # a # xs) (Some e)"
    using pa by simp
  have fr: "\<forall>b. b \<notin> set (hh # a # xs) \<longrightarrow> cells h' b = cells h b"
    using r(4) c1 by auto
  have dt: "\<forall>b. map_option data (cells h' b) = map_option data (cells h b)"
    using r(5) nh by (auto simp: h1_def)
  show ?case
    using m pp fr dt r(6,7) by (auto simp: h1_def)
qed


lemma merged_step:
  assumes nh: "cells h hh = Some nh"
    and h1: "h1 = h\<lparr>cells := (cells h)(hh \<mapsto> nh\<lparr>succ := Some x\<rparr>)\<rparr>"
    and nx: "cells h x = Some nx" "hh \<noteq> x" "hh \<notin> set ms"
    and m: "merged h1 x ms tp1 tp2 h5"
    and e: "ms = [] \<Longrightarrow> succ nx = Some tp1 \<or> succ nx = Some tp2"
  shows "merged h hh (x # ms) tp1 tp2 h5"
proof -
  have c1: "cells h1 b = cells h b" if "b \<noteq> hh" for b
    using that by (simp add: h1)
  have fr5: "\<forall>b. b \<notin> set (x # ms) \<longrightarrow> cells h5 b = cells h1 b"
    using m by (simp add: merged_def)
  have "\<exists>t. (t = tp1 \<or> t = tp2) \<and> path h5 (Some x) (x # ms) (Some t)"
  proof (cases "ms = []")
    case True
    then have "h5 = h1" using m by (simp add: merged_def)
    then show ?thesis using True e nx c1 by auto
  next
    case False
    then show ?thesis using m by (simp add: merged_def)
  qed
  then obtain t where t: "t = tp1 \<or> t = tp2" "path h5 (Some x) (x # ms) (Some t)"
    by blast
  have "cells h5 hh = Some (nh\<lparr>succ := Some x\<rparr>)"
    using fr5 nx by (simp add: h1)
  then have "path h5 (Some hh) (hh # x # ms) (Some t)"
    using t(2) by simp
  moreover have "\<forall>b. b \<notin> set (hh # x # ms) \<longrightarrow> cells h5 b = cells h b"
    using fr5 c1 by auto
  moreover have "\<forall>b. map_option data (cells h5 b) = map_option data (cells h b)"
    using m nh by (auto simp: merged_def h1)
  moreover have "brk h5 = brk h" "junk h5 = junk h"
    using m by (simp_all add: merged_def h1)
  ultimately show ?thesis
    using t(1) unfolding merged_def by blast
qed

lemma merge_loops_path:
  "path h i as (Some tp1) \<Longrightarrow> path h j cs (Some tp2) \<Longrightarrow> distinct (as @ cs) \<Longrightarrow>
   tp1 \<notin> set (as @ cs) \<Longrightarrow> tp2 \<notin> set (as @ cs) \<Longrightarrow> hh \<notin> set (as @ cs) \<Longrightarrow>
   cells h hh \<noteq> None \<Longrightarrow> \<forall>a \<in> set (as @ cs). data_at h a = d a \<Longrightarrow>
   \<exists>h5. merge_loops h (Some tp1) (Some tp2) asc i j (Some hh) n =
          ok (h5, Some (last (hh # merge_nodes d asc as cs)), n + length (merge_nodes d asc as cs)) \<and>
        merged h hh (merge_nodes d asc as cs) tp1 tp2 h5"
proof (induction d asc as cs arbitrary: h i j hh n rule: merge_nodes.induct)
  case (1 d asc cs)
  have l1: "merge_loop1 h (Some tp1) (Some tp2) asc i j (Some hh) n = ok (h, i, j, Some hh, n)"
    using "1.prems"(1) by (subst merge_loop1.simps) (simp add: in_range_def)
  have l2: "merge_loop2 h (Some tp1) i (Some hh) n = ok (h, Some hh, n)"
    using "1.prems"(1) by (subst merge_loop2.simps) (simp add: in_range_def)
  from merge_loop2_path [OF "1.prems"(2), of hh n] "1.prems" obtain h' where r:
    "merge_loop2 h (Some tp2) j (Some hh) n = ok (h', Some (last (hh # cs)), n + length cs)"
    "cs = [] \<longrightarrow> h' = h" "cs \<noteq> [] \<longrightarrow> path h' (Some hh) (hh # cs) (Some tp2)"
    "\<forall>b. b \<notin> set (hh # cs) \<longrightarrow> cells h' b = cells h b"
    "\<forall>b. map_option data (cells h' b) = map_option data (cells h b)"
    "brk h' = brk h" "junk h' = junk h"
    by auto
  have "merge_loops h (Some tp1) (Some tp2) asc i j (Some hh) n =
      ok (h', Some (last (hh # cs)), n + length cs)"
    using l1 l2 r(1) by (simp add: merge_loops_def)
  moreover have "merged h hh cs tp1 tp2 h'"
    using r(2-7) unfolding merged_def by blast
  ultimately show ?case by auto
next
  case (2 d asc v va)
  define as where "as = v # va"
  have p: "path h i as (Some tp1)" "j = Some tp2" "distinct as" "tp1 \<notin> set as" "hh \<notin> set as"
    using "2.prems" by (simp_all add: as_def)
  obtain nv where nv: "i = Some v" "cells h v = Some nv"
    using "2.prems"(1) by (auto split: option.splits)
  have l1: "merge_loop1 h (Some tp1) (Some tp2) asc i j (Some hh) n = ok (h, i, j, Some hh, n)"
    using p(2) by (subst merge_loop1.simps) (simp add: in_range_def)
  from merge_loop2_path [OF p(1,3,4,5) "2.prems"(7), of n] obtain h' where r:
    "merge_loop2 h (Some tp1) i (Some hh) n = ok (h', Some (last (hh # as)), n + length as)"
    "as = [] \<longrightarrow> h' = h" "as \<noteq> [] \<longrightarrow> path h' (Some hh) (hh # as) (Some tp1)"
    "\<forall>b. b \<notin> set (hh # as) \<longrightarrow> cells h' b = cells h b"
    "\<forall>b. map_option data (cells h' b) = map_option data (cells h b)"
    "brk h' = brk h" "junk h' = junk h"
    by auto
  have l3: "merge_loop2 h' (Some tp2) j (Some (last (hh # as))) (n + length as) =
      ok (h', Some (last (hh # as)), n + length as)"
    using p(2) by (subst merge_loop2.simps) (simp add: in_range_def)
  have "merge_loops h (Some tp1) (Some tp2) asc i j (Some hh) n =
      ok (h', Some (last (hh # as)), n + length as)"
    using l1 r(1) l3 by (simp add: merge_loops_def)
  moreover have "merged h hh as tp1 tp2 h'"
    using r(2-7) unfolding merged_def by blast
  ultimately show ?case by (auto simp: as_def)
next
  case (3 d asc a as c cs)
  from "3.prems"(1) obtain na where na: "i = Some a" "cells h a = Some na" "path h (succ na) as (Some tp1)"
    by (rule path_ConsE)
  from "3.prems"(2) obtain nc where nc: "j = Some c" "cells h c = Some nc" "path h (succ nc) cs (Some tp2)"
    by (rule path_ConsE)
  from "3.prems"(7) obtain nh where nh: "cells h hh = Some nh"
    by auto
  have da: "data na = d a" "data nc = d c"
    using "3.prems"(8) na nc by (auto simp: data_at_def)
  have ne: "a \<noteq> tp1" "c \<noteq> tp2" "hh \<noteq> a" "hh \<noteq> c" "a \<noteq> c" "a \<noteq> tp2" "c \<noteq> tp1"
    using "3.prems"(3-6) by auto
  have rng: "in_range i (Some tp1)" "in_range j (Some tp2)"
    using na nc ne by (simp_all add: in_range_def)
  show ?case
  proof (cases "d a = d c")
    case True
    define h1 where "h1 = h\<lparr>cells := (cells h)(hh \<mapsto> nh\<lparr>succ := Some a\<rparr>)\<rparr>"
    have c1: "cells h1 b = cells h b" if "b \<noteq> hh" for b
      using that by (simp add: h1_def)
    have pf: "path h1 p xs q = path h p xs q" if "hh \<notin> set xs" for p xs q
      by (rule path_frame, rule c1) (use that in auto)
    have tk: "take_node h (Some hh) (Some a) = Inr (h1, succ na)"
      using nh na ne by (simp add: take_node_live h1_def)
    have lc: "load h1 (Some c) = Inr nc"
      using nc ne by (simp add: c1)
    have step: "merge_loop1 h (Some tp1) (Some tp2) asc i j (Some hh) n =
        merge_loop1 h1 (Some tp1) (Some tp2) asc (succ na) (succ nc) (Some a) (n + 1)"
      using rng na nc da True tk lc by (subst merge_loop1.simps) simp
    have p1: "path h1 (succ na) as (Some tp1)" "path h1 (succ nc) cs (Some tp2)"
      using na(3) nc(3) "3.prems"(6) by (simp_all add: pf)
    have d1: "\<forall>x \<in> set (as @ cs). data_at h1 x = d x"
    proof
      fix x assume x: "x \<in> set (as @ cs)"
      then have "x \<noteq> hh" using "3.prems"(6) by auto
      then have "data_at h1 x = data_at h x" by (simp add: data_at_def c1)
      then show "data_at h1 x = d x" using "3.prems"(8) x by auto
    qed
    have "cells h1 a \<noteq> None" using na ne by (simp add: c1)
    from "3.IH"(1) [OF True p1 _ _ _ _ this d1, of "n + 1"] "3.prems"(3-5)
    obtain h5 where r: "merge_loops h1 (Some tp1) (Some tp2) asc (succ na) (succ nc) (Some a) (n + 1) =
        ok (h5, Some (last (a # merge_nodes d asc as cs)), n + 1 + length (merge_nodes d asc as cs))"
      "merged h1 a (merge_nodes d asc as cs) tp1 tp2 h5"
      by auto
    have nin: "hh \<notin> set (merge_nodes d asc as cs)"
      using set_merge_nodes [of d asc as cs] "3.prems"(6) by auto
    have e: "succ na = Some tp1 \<or> succ na = Some tp2" if "merge_nodes d asc as cs = []"
      using that na(3) by (simp add: merge_nodes_Nil)
    have "merged h hh (a # merge_nodes d asc as cs) tp1 tp2 h5"
      by (rule merged_step [OF nh h1_def na(2) ne(3) nin r(2) e])
    moreover have "merge_loops h (Some tp1) (Some tp2) asc i j (Some hh) n =
        merge_loops h1 (Some tp1) (Some tp2) asc (succ na) (succ nc) (Some a) (n + 1)"
      unfolding merge_loops_def step ..
    ultimately show ?thesis
      using r(1) True by simp
  next
    case False
    show ?thesis
    proof (cases "(d a < d c) \<noteq> (\<not> asc)")
      case True
      define h1 where "h1 = h\<lparr>cells := (cells h)(hh \<mapsto> nh\<lparr>succ := Some a\<rparr>)\<rparr>"
      have c1: "cells h1 b = cells h b" if "b \<noteq> hh" for b
        using that by (simp add: h1_def)
      have pf: "path h1 p xs q = path h p xs q" if "hh \<notin> set xs" for p xs q
        by (rule path_frame, rule c1) (use that in auto)
      have tk: "take_node h (Some hh) (Some a) = Inr (h1, succ na)"
        using nh na ne by (simp add: take_node_live h1_def)
      have step: "merge_loop1 h (Some tp1) (Some tp2) asc i j (Some hh) n =
          merge_loop1 h1 (Some tp1) (Some tp2) asc (succ na) j (Some a) (n + 1)"
        using rng na nc da False True tk by (subst merge_loop1.simps) auto
      have p1: "path h1 (succ na) as (Some tp1)" "path h1 j (c # cs) (Some tp2)"
        using na(3) "3.prems"(2,6) by (simp_all add: pf del: path.simps)
      have d1: "\<forall>x \<in> set (as @ c # cs). data_at h1 x = d x"
      proof
        fix x assume x: "x \<in> set (as @ c # cs)"
        then have "x \<noteq> hh" using "3.prems"(6) by auto
        then have "data_at h1 x = data_at h x" by (simp add: data_at_def c1)
        then show "data_at h1 x = d x" using "3.prems"(8) x by auto
      qed
      have "cells h1 a \<noteq> None" using na ne by (simp add: c1)
      from "3.IH"(2) [OF False True p1 _ _ _ _ this d1, of "n + 1"] "3.prems"(3-5)
      obtain h5 where r: "merge_loops h1 (Some tp1) (Some tp2) asc (succ na) j (Some a) (n + 1) =
          ok (h5, Some (last (a # merge_nodes d asc as (c # cs))),
              n + 1 + length (merge_nodes d asc as (c # cs)))"
        "merged h1 a (merge_nodes d asc as (c # cs)) tp1 tp2 h5"
        by auto
      have nin: "hh \<notin> set (merge_nodes d asc as (c # cs))"
        using set_merge_nodes [of d asc as "c # cs"] "3.prems"(6) by auto
      have e: "succ na = Some tp1 \<or> succ na = Some tp2" if "merge_nodes d asc as (c # cs) = []"
        using that by (simp add: merge_nodes_Nil)
      have "merged h hh (a # merge_nodes d asc as (c # cs)) tp1 tp2 h5"
        by (rule merged_step [OF nh h1_def na(2) ne(3) nin r(2) e])
      moreover have "merge_loops h (Some tp1) (Some tp2) asc i j (Some hh) n =
          merge_loops h1 (Some tp1) (Some tp2) asc (succ na) j (Some a) (n + 1)"
        unfolding merge_loops_def step ..
      ultimately show ?thesis
        using r(1) False True by simp
    next
      case nb: False
      define h1 where "h1 = h\<lparr>cells := (cells h)(hh \<mapsto> nh\<lparr>succ := Some c\<rparr>)\<rparr>"
      have c1: "cells h1 b = cells h b" if "b \<noteq> hh" for b
        using that by (simp add: h1_def)
      have pf: "path h1 p xs q = path h p xs q" if "hh \<notin> set xs" for p xs q
        by (rule path_frame, rule c1) (use that in auto)
      have tk: "take_node h (Some hh) (Some c) = Inr (h1, succ nc)"
        using nh nc ne by (simp add: take_node_live h1_def)
      have step: "merge_loop1 h (Some tp1) (Some tp2) asc i j (Some hh) n =
          merge_loop1 h1 (Some tp1) (Some tp2) asc i (succ nc) (Some c) (n + 1)"
        using rng na nc da False nb tk by (subst merge_loop1.simps) auto
      have p1: "path h1 i (a # as) (Some tp1)" "path h1 (succ nc) cs (Some tp2)"
        using nc(3) "3.prems"(1,6) by (simp_all add: pf del: path.simps)
      have d1: "\<forall>x \<in> set ((a # as) @ cs). data_at h1 x = d x"
      proof
        fix x assume x: "x \<in> set ((a # as) @ cs)"
        then have "x \<noteq> hh" using "3.prems"(6) by auto
        then have "data_at h1 x = data_at h x" by (simp add: data_at_def c1)
        then show "data_at h1 x = d x" using "3.prems"(8) x by auto
      qed
      have "cells h1 c \<noteq> None" using nc ne by (simp add: c1)
      from "3.IH"(3) [OF False nb p1 _ _ _ _ this d1, of "n + 1"] "3.prems"(3-5)
      obtain h5 where r: "merge_loops h1 (Some tp1) (Some tp2) asc i (succ nc) (Some c) (n + 1) =
          ok (h5, Some (last (c # merge_nodes d asc (a # as) cs)),
              n + 1 + length (merge_nodes d asc (a # as) cs))"
        "merged h1 c (merge_nodes d asc (a # as) cs) tp1 tp2 h5"
        by auto
      have nin: "hh \<notin> set (merge_nodes d asc (a # as) cs)"
        using set_merge_nodes [of d asc "a # as" cs] "3.prems"(6) by auto
      have e: "succ nc = Some tp1 \<or> succ nc = Some tp2" if "merge_nodes d asc (a # as) cs = []"
        using that by (simp add: merge_nodes_Nil)
      have "merged h hh (c # merge_nodes d asc (a # as) cs) tp1 tp2 h5"
        by (rule merged_step [OF nh h1_def nc(2) ne(4) nin r(2) e])
      moreover have "merge_loops h (Some tp1) (Some tp2) asc i j (Some hh) n =
          merge_loops h1 (Some tp1) (Some tp2) asc i (succ nc) (Some c) (n + 1)"
        unfolding merge_loops_def step ..
      ultimately show ?thesis
        using r(1) False nb by simp
    qed
  qed
qed


subsection \<open>The destructor of the copy\<close>

lemma runs_outI:
  "path h p ns q \<Longrightarrow> q = None \<or> q = Some e \<Longrightarrow> e \<notin> set ns \<Longrightarrow> runs_out h e p"
  unfolding runs_out_def by blast

lemma runs_out_step:
  assumes "cells h a = Some n" "a \<noteq> e" "runs_out h e (succ n)"
  shows "runs_out h e (Some a)"
proof -
  from assms(3) obtain ns q where r: "path h (succ n) ns q" "q = None \<or> q = Some e" "e \<notin> set ns"
    unfolding runs_out_def by blast
  have "path h (Some a) (a # ns) q"
    using assms(1) r(1) by simp
  then show ?thesis
    using r(2,3) assms(2) by (intro runs_outI [where ns = "a # ns" and q = q]) auto
qed

lemma runs_out_merged:
  assumes p: "path h (Some x) (x # post) (Some t)"
    and t: "t = tp1 \<or> t = tp2"
    and n1: "cells h tp1 = Some n1" "succ n1 = None"
    and ne: "tp2 \<notin> set (x # post)" "tp1 \<noteq> tp2"
  shows "runs_out h tp2 (Some x)"
proof (cases "t = tp2")
  case True
  then show ?thesis
    using p ne by (intro runs_outI [where ns = "x # post" and q = "Some tp2"]) auto
next
  case False
  then have "t = tp1" using t by simp
  then have "path h (Some x) ((x # post) @ [tp1]) None"
    using p n1 unfolding path_snoc by blast
  then show ?thesis
    using ne by (intro runs_outI [where ns = "(x # post) @ [tp1]" and q = None]) auto
qed

lemma runs_out_copy:
  assumes m: "path h5 (Some hh) (hh # ms) (Some t)" "t = tp1 \<or> t = tp2"
    and fr: "\<forall>b. b \<notin> set (hh # ms) \<longrightarrow> cells h5 b = cells h b"
    and n1: "cells h5 tp1 = Some n1" "succ n1 = None" "tp1 \<noteq> tp2" "tp2 \<notin> set (hh # ms)"
  shows "path h p cs (Some tp2) \<Longrightarrow> tp2 \<notin> set cs \<Longrightarrow> hh \<notin> set cs \<Longrightarrow> runs_out h5 tp2 p"
proof (induction cs arbitrary: p)
  case Nil
  then show ?case
    by (intro runs_outI [where ns = "[]" and q = "Some tp2"]) auto
next
  case (Cons a cs)
  from Cons.prems(1) obtain n where n: "p = Some a" "cells h a = Some n" "path h (succ n) cs (Some tp2)"
    by (rule path_ConsE)
  show ?case
  proof (cases "a \<in> set ms")
    case True
    then obtain pre post where s: "ms = pre @ a # post"
      by (auto simp: in_set_conv_decomp)
    have "path h5 (Some hh) ((hh # pre) @ (a # post)) (Some t)"
      using m(1) s by simp
    then obtain q where q: "path h5 (Some hh) (hh # pre) q" "path h5 q (a # post) (Some t)"
      unfolding path_append by blast
    from q(2) have "q = Some a" by simp
    then have pa: "path h5 (Some a) (a # post) (Some t)"
      using q(2) by simp
    have "tp2 \<notin> set (a # post)"
      using n1(4) s by auto
    from runs_out_merged [OF pa m(2) n1(1,2) this n1(3)] show ?thesis
      using n(1) by simp
  next
    case False
    then have "cells h5 a = Some n"
      using fr n(2) Cons.prems(3) by auto
    moreover have "a \<noteq> tp2"
      using Cons.prems(2) by auto
    moreover have "runs_out h5 tp2 (succ n)"
      using Cons.IH [OF n(3)] Cons.prems(2,3) by auto
    ultimately show ?thesis
      unfolding n(1) by (rule runs_out_step)
  qed
qed

lemma erase_walk_runs_out:
  "path h p ns q \<Longrightarrow> q = None \<or> q = Some e \<Longrightarrow> e \<notin> set ns \<Longrightarrow> tail l = Some e \<Longrightarrow>
   erase_walk False h l p (Some e) cnt = ok (q, cnt + length ns, h)"
proof (induction ns arbitrary: p cnt)
  case Nil
  then show ?case by (subst erase_walk.simps) auto
next
  case (Cons a ns)
  from Cons.prems(1) obtain n where n: "p = Some a" "cells h a = Some n" "path h (succ n) ns q"
    by (rule path_ConsE)
  have ne: "a \<noteq> e" using Cons.prems(3) by auto
  have inc: "it_incr False h l (Some a) = Inr (succ n)"
    using n(2) ne Cons.prems(4) by (intro it_incr_node) auto
  have "erase_walk False h l (succ n) (Some e) (cnt + 1) = ok (q, cnt + 1 + length ns, h)"
    using Cons.IH [OF n(3)] Cons.prems(2,3,4) by auto
  then show ?case
    using n(1) ne inc by (subst erase_walk.simps) simp
qed

lemma destroy_runs_out:
  assumes hd: "head nl = Some hpc" "tail nl = Some tpc" "hpc \<noteq> tpc"
    and nh: "cells h hpc = Some nhd" "succ nhd = Some c" "c \<noteq> tpc"
    and sz: "size_fl nl \<noteq> 0"
    and r: "runs_out h tpc (Some c)"
  obtains h' where "destroy False h nl = ok h'" "\<And>b. b \<noteq> hpc \<Longrightarrow> cells h' b = cells h b"
    "brk h' = brk h" "junk h' = junk h"
proof -
  from r obtain ns q where w: "path h (Some c) ns q" "q = None \<or> q = Some tpc" "tpc \<notin> set ns"
    unfolding runs_out_def by blast
  define h' where "h' = h\<lparr>cells := (cells h)(hpc \<mapsto> nhd\<lparr>succ := q\<rparr>)\<rparr>"
  have cb: "cbegin h nl = Inr (Some c)"
    using hd nh by (simp add: cbegin_def)
  have ip: "it_plus False h nl (Some hpc) 1 = Inr (Some c)"
    using hd nh by (simp add: it_plus_node)
  have ew: "erase_walk False h nl (Some c) (Some tpc) 0 = ok (q, 0 + length ns, h)"
    using w hd(2) by (rule erase_walk_runs_out)
  have st: "store_succ h (Some hpc) q = Inr h'"
    using nh by (simp add: store_succ_def h'_def)
  have "erase_after_loop False h nl (Some c) (Some hpc) =
      ok (h', nl\<lparr>size_fl := size_sub (size_fl nl) (length ns)\<rparr>)"
    using ip ew st hd nh(3) by (subst erase_after_loop.simps) (simp add: cend_def ok_def)
  then have "destroy False h nl = ok h'"
    using cb sz hd by (simp add: destroy_def clear_def erase_after_def empty_fl_def cbefore_begin_def)
  then show ?thesis
    by (rule that) (simp_all add: h'_def)
qed


subsection \<open>merge\<close>

lemma merge_elems_Nil2 [simp]: "merge_elems asc xs [] = xs"
  by (cases xs) simp_all

lemma set_merge_elems: "set (merge_elems asc xs ys) \<subseteq> set xs \<union> set ys"
  by (induction asc xs ys rule: merge_elems.induct) auto

lemma in_order_Cons:
  "in_order asc (x # xs) \<longleftrightarrow> (\<forall>y \<in> set xs. if asc then x \<le> y else y \<le> x) \<and> in_order asc xs"
  by (simp add: in_order_def)

lemma in_order_merge_elems:
  "in_order asc xs \<Longrightarrow> in_order asc ys \<Longrightarrow> in_order asc (merge_elems asc xs ys)"
proof (induction asc xs ys rule: merge_elems.induct)
  case (3 asc x xs y ys)
  have s1: "set (merge_elems asc xs ys) \<subseteq> set xs \<union> set ys"
    and s2: "set (merge_elems asc xs (y # ys)) \<subseteq> set xs \<union> set (y # ys)"
    and s3: "set (merge_elems asc (x # xs) ys) \<subseteq> set (x # xs) \<union> set ys"
    by (rule set_merge_elems)+
  from "3.prems" have o: "in_order asc xs" "in_order asc ys"
    "\<forall>z \<in> set xs. if asc then x \<le> z else z \<le> x" "\<forall>z \<in> set ys. if asc then y \<le> z else z \<le> y"
    by (simp_all add: in_order_Cons)
  show ?case
  proof (cases "x = y")
    case True
    then have "in_order asc (merge_elems asc xs ys)"
      using "3.IH"(1) o by simp
    moreover have "\<forall>z \<in> set (merge_elems asc xs ys). if asc then x \<le> z else z \<le> x"
      using s1 o(3,4) True by auto
    ultimately show ?thesis
      using True by (auto simp: in_order_Cons)
  next
    case False
    show ?thesis
    proof (cases "(x < y) \<noteq> (\<not> asc)")
      case True
      then have "in_order asc (merge_elems asc xs (y # ys))"
        using "3.IH"(2) [OF False] o "3.prems" by simp
      moreover have "\<forall>z \<in> set (merge_elems asc xs (y # ys)). if asc then x \<le> z else z \<le> x"
      proof
        fix z assume "z \<in> set (merge_elems asc xs (y # ys))"
        then have "z \<in> set xs \<or> z = y \<or> z \<in> set ys" using s2 by auto
        then show "if asc then x \<le> z else z \<le> x"
          using o(3,4) True False by (auto split: if_splits)
      qed
      ultimately show ?thesis
        using True False by (auto simp: in_order_Cons)
    next
      case nb: False
      then have "in_order asc (merge_elems asc (x # xs) ys)"
        using "3.IH"(3) [OF False] o "3.prems" by simp
      moreover have "\<forall>z \<in> set (merge_elems asc (x # xs) ys). if asc then y \<le> z else z \<le> y"
      proof
        fix z assume "z \<in> set (merge_elems asc (x # xs) ys)"
        then have "z = x \<or> z \<in> set xs \<or> z \<in> set ys" using s3 by auto
        then show "if asc then y \<le> z else z \<le> y"
          using o(3,4) nb False by (auto split: if_splits)
      qed
      ultimately show ?thesis
        using nb False by (auto simp: in_order_Cons)
    qed
  qed
qed simp_all

lemma mset_merge_elems:
  "set xs \<inter> set ys = {} \<Longrightarrow> mset (merge_elems asc xs ys) = mset xs + mset ys"
  by (induction asc xs ys rule: merge_elems.induct) auto

lemma length_merge_elems:
  "set xs \<inter> set ys = {} \<Longrightarrow> length (merge_elems asc xs ys) = length xs + length ys"
  using mset_merge_elems [of xs ys asc] by (metis size_mset size_union)

lemma merge_nodes_Nil2 [simp]: "merge_nodes d asc as [] = as"
  by (cases as) simp_all

lemma merge_nodes_cong:
  "(\<And>x. x \<in> set as \<union> set cs \<Longrightarrow> d x = d' x) \<Longrightarrow>
   merge_nodes d asc as cs = merge_nodes d' asc as cs"
  by (induction d asc as cs rule: merge_nodes.induct) auto

text \<open>
  The nodes of the first sequence are all among the merged nodes, in their order: on equal
  heads it is the node of the first sequence that is linked.
\<close>

lemma filter_merge_nodes:
  "set as \<subseteq> S \<Longrightarrow> S \<inter> set cs = {} \<Longrightarrow>
   filter (\<lambda>x. x \<in> S) (merge_nodes d asc as cs) = as"
proof (induction d asc as cs rule: merge_nodes.induct)
  case (1 d asc cs)
  then show ?case by (auto simp: filter_empty_conv)
next
  case (2 d asc v va)
  then show ?case by (auto simp: filter_id_conv)
next
  case (3 d asc a as c cs)
  then show ?case by auto
qed

lemma set_merge_nodes_first: "set as \<subseteq> set (merge_nodes d asc as cs)"
  by (induction d asc as cs rule: merge_nodes.induct) auto

lemma merge_chain:
  assumes c1: "chain h l as" and c2: "chain h l2 bs"
    and o1: "in_order asc (map (data_at h) as)" and o2: "in_order asc (map (data_at h) bs)"
  obtains h' l' ms cs where "merge False h l l2 asc = ok (h', l')" "chain h' l' ms"
    "map (data_at h') ms = merge_elems asc (map (data_at h) as) (map (data_at h) bs)"
    "head l' = head l" "brk h \<le> brk h'"
    "ms = merge_nodes (data_at h') asc as cs" "map (data_at h') as = map (data_at h) as"
    "map (data_at h') cs = map (data_at h) bs" "distinct cs" "\<forall>c \<in> set cs. brk h \<le> c"
proof (cases "bs = []")
  case True
  then have "empty_fl l2"
    using chain_size [OF c2] by (simp add: empty_fl_def)
  then have "merge False h l l2 asc = ok (h, l)"
    by (simp add: merge_def)
  then show ?thesis
    using c1 True by (intro that [of h l as "[]"]) simp_all
next
  case False
  obtain h0 nl cs hpc tpc where cp: "copy_list False h l2 = ok (h0, nl)" "chain h0 nl cs"
    "map (data_at h0) cs = map (data_at h) bs" "\<And>a. a < brk h \<Longrightarrow> cells h0 a = cells h a"
    "brk h \<le> brk h0" "head nl = Some hpc" "tail nl = Some tpc"
    "\<forall>a \<in> set (hpc # cs @ [tpc]). brk h \<le> a"
    using copy_list_chain [OF c2, of False] by blast
  have c10: "chain h0 l as" and d10: "map (data_at h0) as = map (data_at h) as"
    using chain_frame [OF c1 cp(4,5)] by simp_all
  have c20: "chain h0 l2 bs" and d20: "map (data_at h0) bs = map (data_at h) bs"
    using chain_frame [OF c2 cp(4,5)] by simp_all
  have ne: "\<not> empty_fl l2"
    using False chain_size [OF c2] by (simp add: empty_fl_def)
  have o10: "in_order asc (map (data_at h0) as)"
    unfolding d10 by (rule o1)
  have o20: "in_order asc (map (data_at h0) bs)"
    unfolding d20 by (rule o2)
  have es1: "ensure_sorted h0 l l asc = ok h0"
    by (rule ensure_sorted_chain [OF c10 o10])
  have es2: "ensure_sorted h0 l2 nl asc = ok h0"
    by (rule ensure_sorted_chain [OF c20 o20])
  from c1 obtain hp1 tp1 where f1: "head l = Some hp1" "tail l = Some tp1"
    "\<forall>a \<in> set (hp1 # as @ [tp1]). a < brk h"
    by (rule chainE)
  from c10 f1(1,2) obtain nt1 where g1: "path h0 (Some hp1) (hp1 # as) (Some tp1)"
    "distinct (hp1 # as @ [tp1])" "cells h0 tp1 = Some nt1" "succ nt1 = None"
    unfolding chain_iff by auto
  from cp(2,6,7) obtain ntc where g2: "path h0 (Some hpc) (hpc # cs) (Some tpc)"
    "distinct (hpc # cs @ [tpc])" "cells h0 tpc = Some ntc" "succ ntc = None"
    "size_fl nl = length cs" "\<forall>a \<in> set (hpc # cs @ [tpc]). a < brk h0"
    unfolding chain_iff by auto
  from g1(1) obtain n1 where n1: "cells h0 hp1 = Some n1" "path h0 (succ n1) as (Some tp1)"
    by (auto split: option.splits)
  from g2(1) obtain n2 where n2: "cells h0 hpc = Some n2" "path h0 (succ n2) cs (Some tpc)"
    by (auto split: option.splits)
  have "length cs = length bs"
    using cp(3) by (metis length_map)
  then obtain c cs' where cs: "cs = c # cs'"
    using False by (cases cs) auto
  have lo: "a < brk h" if "a \<in> set (hp1 # as @ [tp1])" for a
    using that f1(3) by blast
  have hi: "brk h \<le> a" if "a \<in> set (hpc # cs @ [tpc])" for a
    using that cp(8) by blast
  have sep: "a \<noteq> b" if "a \<in> set (hp1 # as @ [tp1])" "b \<in> set (hpc # cs @ [tpc])" for a b
    using lo [OF that(1)] hi [OF that(2)] by simp
  define ms where "ms = merge_nodes (data_at h0) asc as cs"
  have sub: "set ms \<subseteq> set as \<union> set cs"
    unfolding ms_def by (rule set_merge_nodes)
  have disj: "a \<notin> set cs" if "a \<in> set as" for a
    using sep [of a a] that by auto
  have dis: "distinct (as @ cs)"
    using g1(2) g2(2) disj by auto
  have e1: "tp1 \<notin> set (as @ cs)"
    using g1(2) sep [of tp1] by auto
  have e2: "tpc \<notin> set (as @ cs)"
    using g2(2) sep [of _ tpc] by auto
  have e3: "hp1 \<notin> set (as @ cs)"
    using g1(2) sep [of hp1] by auto
  have e4: "hpc \<notin> set (as @ cs)"
    using g2(2) sep [of _ hpc] by auto
  have live: "cells h0 hp1 \<noteq> None"
    using n1(1) by simp
  have "\<forall>a \<in> set (as @ cs). data_at h0 a = data_at h0 a"
    by simp
  then have "\<exists>h5. merge_loops h0 (Some tp1) (Some tpc) asc (succ n1) (succ n2) (Some hp1) 0 =
      ok (h5, Some (last (hp1 # ms)), 0 + length ms) \<and> merged h0 hp1 ms tp1 tpc h5"
    unfolding ms_def by (rule merge_loops_path [OF n1(2) n2(2) dis e1 e2 e3 live])
  then obtain h5 where m: "merge_loops h0 (Some tp1) (Some tpc) asc (succ n1) (succ n2) (Some hp1) 0 =
      ok (h5, Some (last (hp1 # ms)), 0 + length ms)" "merged h0 hp1 ms tp1 tpc h5"
    by (elim exE conjE)
  have msne: "ms \<noteq> []"
    using cs by (simp add: ms_def merge_nodes_Nil)
  have dms: "distinct ms"
    unfolding ms_def using dis by (rule distinct_merge_nodes)
  from m(2) msne obtain t where t: "t = tp1 \<or> t = tpc" "path h5 (Some hp1) (hp1 # ms) (Some t)"
    unfolding merged_def by blast
  from m(2) have fr5: "\<forall>b. b \<notin> set (hp1 # ms) \<longrightarrow> cells h5 b = cells h0 b"
    and dt5: "\<forall>b. map_option data (cells h5 b) = map_option data (cells h0 b)"
    and b5: "brk h5 = brk h0"
    unfolding merged_def by blast+
  obtain pre z where pz: "hp1 # ms = pre @ [z]"
    by (metis rev_exhaust list.distinct(1))
  then have lz: "last (hp1 # ms) = z"
    by (metis last_snoc)
  have "path h5 (Some hp1) (pre @ [z]) (Some t)"
    using t(2) pz by simp
  then obtain nh where nh: "cells h5 z = Some nh" "succ nh = Some t"
    unfolding path_snoc by blast
  have m': "merge_loops h0 (Some tp1) (Some tpc) asc (succ n1) (succ n2) (Some hp1) 0 =
      ok (h5, Some z, length ms)"
    using m(1) lz by simp
  have n5: "hpc \<notin> set (hp1 # ms)" "tpc \<notin> set (hp1 # ms)" "tp1 \<notin> set (hp1 # ms)"
    using sub e1 e2 e4 g1(2) sep [of hp1 hpc] sep [of hp1 tpc] by auto
  have c5: "cells h5 hpc = Some n2" "cells h5 tp1 = Some nt1" "cells h5 tpc = Some ntc"
    using fr5 n5 n2(1) g1(3) g2(3) by auto
  have sc: "succ n2 = Some c"
    using n2(2) cs by simp
  have ct: "c \<noteq> tpc" "hpc \<noteq> tpc" "tp1 \<noteq> tpc"
    using g2(2) cs sep [of tp1 tpc] by auto
  have "tpc \<notin> set cs" "hp1 \<notin> set cs"
    using e2 e3 by auto
  with n2(2) have "runs_out h5 tpc (succ n2)"
    by (rule runs_out_copy [OF t(2) t(1) fr5 c5(2) g1(4) ct(3) n5(2)])
  then have ro: "runs_out h5 tpc (Some c)"
    using sc by simp
  have "size_fl nl \<noteq> 0"
    using g2(5) cs by simp
  from destroy_runs_out [OF cp(6,7) ct(2) c5(1) sc ct(1) this ro]
  obtain h6 where d6: "destroy False h5 nl = ok h6" "\<And>b. b \<noteq> hpc \<Longrightarrow> cells h6 b = cells h5 b"
    "brk h6 = brk h5"
    by blast
  define l' where "l' = l\<lparr>tail := Some t, size_fl := length ms\<rparr>"
  have mg: "merge False h l l2 asc = ok (h6, l')"
    using ne cp(1,6,7) es1 es2 n1(1) n2(1) m' nh d6(1) f1(1,2)
    by (simp add: merge_def l'_def)
  have p6: "path h6 (Some hp1) (hp1 # ms) (Some t)"
  proof -
    have "path h6 (Some hp1) (hp1 # ms) (Some t) = path h5 (Some hp1) (hp1 # ms) (Some t)"
      by (rule path_frame, rule d6(2)) (use n5(1) in auto)
    then show ?thesis using t(2) by simp
  qed
  have tn: "t \<notin> set (hp1 # ms)"
    using t(1) n5(2,3) by auto
  have d6': "distinct (hp1 # ms @ [t])"
    using dms tn sub e3 by auto
  obtain nt where nt: "cells h6 t = Some nt" "succ nt = None"
    using t(1) c5(2,3) g1(4) g2(4) d6(2) [of tp1] d6(2) [of tpc] ct(2) sep [of tp1 hpc] by auto
  have bd: "\<forall>a \<in> set (hp1 # ms @ [t]). a < brk h6"
  proof
    fix a assume "a \<in> set (hp1 # ms @ [t])"
    then have "a \<in> set (hp1 # as @ [tp1]) \<or> a \<in> set (hpc # cs @ [tpc])"
      using sub t(1) by auto
    then show "a < brk h6"
      using lo [of a] cp(5) g2(6) d6(3) b5 by auto
  qed
  have ch: "chain h6 l' ms"
    by (rule chainI [where hp = hp1 and tp = t and nt = nt])
       (use f1(1) p6 d6' nt bd in \<open>simp_all add: l'_def\<close>)
  have d60: "data_at h6 b = data_at h0 b" if "b \<in> set as \<union> set cs" for b
  proof -
    have "b \<noteq> hpc" using that e4 by auto
    then have "cells h6 b = cells h5 b" by (rule d6(2))
    moreover have "cells h0 b \<noteq> None"
      using that path_live [OF n1(2), of b] path_live [OF n2(2), of b] by auto
    ultimately show ?thesis
      using dt5 by (intro data_at_preserved) auto
  qed
  then have "map (data_at h6) ms = map (data_at h0) ms"
    using sub by auto
  also have "\<dots> = merge_elems asc (map (data_at h0) as) (map (data_at h0) cs)"
    unfolding ms_def by (rule map_merge_nodes)
  finally have dt: "map (data_at h6) ms = merge_elems asc (map (data_at h) as) (map (data_at h) bs)"
    using d10 cp(3) by simp
  have hd: "head l' = head l"
    by (simp add: l'_def)
  have bk: "brk h \<le> brk h6"
    using cp(5) b5 d6(3) by simp
  have mn: "ms = merge_nodes (data_at h6) asc as cs"
    unfolding ms_def by (rule merge_nodes_cong) (simp add: d60)
  have "map (data_at h6) as = map (data_at h0) as"
    using d60 by simp
  then have da: "map (data_at h6) as = map (data_at h) as"
    using d10 by simp
  have "map (data_at h6) cs = map (data_at h0) cs"
    using d60 by simp
  then have dc: "map (data_at h6) cs = map (data_at h) bs"
    using cp(3) by simp
  have fresh: "distinct cs" "\<forall>c \<in> set cs. brk h \<le> c"
    using g2(2) cp(8) by auto
  from mg ch dt hd bk mn da dc fresh show ?thesis
    by (rule that)
qed

lemma push_all_frame:
  "chain h l as \<Longrightarrow> tail l = Some tp \<Longrightarrow> b \<le> tp \<Longrightarrow> b \<le> brk h \<Longrightarrow>
   push_all h l xs = Inr (h', l') \<Longrightarrow> (\<forall>a < b. cells h' a = cells h a) \<and> brk h \<le> brk h'"
proof (induction xs arbitrary: h l as tp)
  case Nil
  then show ?case by simp
next
  case (Cons x xs)
  define l1 where "l1 = l\<lparr>tail := Some (brk h), size_fl := size_fl l + 1\<rparr>"
  from push_back_chain [OF Cons.prems(1), of x] obtain h1 tp' where p: "tail l = Some tp'"
    "push_back h l x = Inr (h1, l1)" "chain h1 l1 (as @ [tp'])" "brk h1 = Suc (brk h)"
    "\<And>a. a \<noteq> brk h \<Longrightarrow> a \<noteq> tp' \<Longrightarrow> cells h1 a = cells h a"
    unfolding l1_def by blast
  have t: "tp' = tp"
    using p(1) Cons.prems(2) by simp
  have pa: "push_all h1 l1 xs = Inr (h', l')"
    using Cons.prems(5) p(2) by simp
  have "tail l1 = Some (brk h)"
    by (simp add: l1_def)
  from Cons.IH [OF p(3) this _ _ pa] Cons.prems(4) p(4)
  have r: "\<forall>a < b. cells h' a = cells h1 a" "brk h1 \<le> brk h'"
    by auto
  have "cells h' a = cells h a" if "a < b" for a
    using r(1) p(5) [of a] that Cons.prems(3,4) t by auto
  then show ?case
    using r(2) p(4) by auto
qed

lemma from_elems_frame:
  assumes "from_elems h xs = Inr (h', l')"
  shows "a < brk h \<Longrightarrow> cells h' a = cells h a" and "brk h \<le> brk h'"
proof -
  obtain h0 l0 where i: "init_list h = Inr (h0, l0)" "chain h0 l0 []" "brk h0 = brk h + 2"
    "\<And>a. a < brk h \<Longrightarrow> cells h0 a = cells h a" "tail l0 = Some (Suc (brk h))"
    by (rule init_list_chain [of h]) blast
  have "push_all h0 l0 xs = Inr (h', l')"
    using assms i(1) by (simp add: from_elems_def)
  from push_all_frame [OF i(2,5) _ _ this, of "brk h"] i(3)
  have r: "\<forall>a < brk h. cells h' a = cells h0 a" "brk h0 \<le> brk h'"
    by auto
  show "a < brk h \<Longrightarrow> cells h' a = cells h a"
    using r(1) i(4) by simp
  show "brk h \<le> brk h'"
    using r(2) i(3) by simp
qed

lemma two_lists:
  obtains h1 l h l2 as bs where "from_elems h0 xs = Inr (h1, l)"
    "from_elems h1 ys = Inr (h, l2)" "chain h l as" "chain h l2 bs"
    "map (data_at h) as = xs" "map (data_at h) bs = ys"
proof -
  obtain h1 l as where a: "from_elems h0 xs = Inr (h1, l)"
    "chain h1 l as" "map (data_at h1) as = xs"
    by (rule from_elems_chain)
  obtain h l2 bs where b: "from_elems h1 ys = Inr (h, l2)" "chain h l2 bs"
    "map (data_at h) bs = ys"
    by (rule from_elems_chain)
  have f: "\<And>a. a < brk h1 \<Longrightarrow> cells h a = cells h1 a" "brk h1 \<le> brk h"
    using from_elems_frame [OF b(1)] by simp_all
  have "chain h l as" "map (data_at h) as = map (data_at h1) as"
    using chain_frame [OF a(2) f] by simp_all
  with a b show ?thesis
    using that by simp
qed

text \<open>
  C2, as the code has it. In the checked build, for a well-formed receiver with the nodes \<open>as\<close>
  holding \<open>xs\<close> and a well-formed argument holding \<open>ys\<close>, both in the requested order,
  \<^verbatim>\<open>merge\<close> returns. The nodes of the receiver are then \<open>merge_nodes d asc as cs\<close>, where
  \<open>cs\<close> are the nodes of the copy made of the argument, new nodes holding \<open>ys\<close>: the two
  chains merged in order, where of two equal heads the receiver's node is linked and the
  copy's node is passed over. So every node of the receiver stays in the list, in the same
  order and with its element, and the receiver holds \<open>merge_elems asc xs ys\<close>, in which an
  element at the head of both sequences occurs once. The receiver is well formed, \<^verbatim>\<open>size_\<close>
  is the number of its elements and \<^verbatim>\<open>sorted\<close> holds of it. When no element occurs in both
  lists, \<^verbatim>\<open>size_\<close> is the sum of the two sizes and the elements are those of both lists, with
  their multiplicities.
\<close>

theorem merge_takes_equal_heads_once:
  assumes "chain h l as" "chain h l2 bs"
    and "xs = map (data_at h) as" "ys = map (data_at h) bs"
    and "in_order asc xs" "in_order asc ys"
  shows "\<exists>h' l' ms cs. merge False h l l2 asc = ok (h', l') \<and> chain h' l' ms \<and>
           ms = merge_nodes (data_at h') asc as cs \<and>
           map (data_at h') as = xs \<and> map (data_at h') cs = ys \<and>
           distinct cs \<and> (\<forall>c \<in> set cs. brk h \<le> c) \<and>
           set as \<subseteq> set ms \<and> filter (\<lambda>a. a \<in> set as) ms = as \<and>
           to_list False h' l' = ok (merge_elems asc xs ys) \<and>
           size_fl l' = length (merge_elems asc xs ys) \<and>
           sorted_fl False h' l' asc = ok True \<and>
           (set xs \<inter> set ys = {} \<longrightarrow>
              size_fl l' = length xs + length ys \<and>
              mset (merge_elems asc xs ys) = mset xs + mset ys)"
proof -
  have o: "in_order asc (map (data_at h) as)" "in_order asc (map (data_at h) bs)"
    using assms(3-6) by simp_all
  obtain h' l' ms cs where m: "merge False h l l2 asc = ok (h', l')" "chain h' l' ms"
    "map (data_at h') ms = merge_elems asc xs ys"
    and n: "ms = merge_nodes (data_at h') asc as cs" "map (data_at h') as = xs"
    "map (data_at h') cs = ys" "distinct cs" "\<forall>c \<in> set cs. brk h \<le> c"
    unfolding assms(3,4) by (rule merge_chain [OF assms(1,2) o]) blast
  have "\<forall>a \<in> set as. a < brk h"
    using assms(1) by (auto simp: chain_iff)
  then have "set as \<inter> set cs = {}"
    using n(5) by fastforce
  then have fl: "filter (\<lambda>a. a \<in> set as) ms = as"
    unfolding n(1) by (intro filter_merge_nodes) simp_all
  have ss: "set as \<subseteq> set ms"
    unfolding n(1) by (rule set_merge_nodes_first)
  have tl: "to_list False h' l' = ok (merge_elems asc xs ys)"
    using to_list_chain [OF m(2)] m(3) by simp
  have sz: "size_fl l' = length (merge_elems asc xs ys)"
    using chain_size [OF m(2)] m(3) by (metis length_map)
  have "in_order asc (merge_elems asc xs ys)"
    using assms(5,6) by (rule in_order_merge_elems)
  then have so: "sorted_fl False h' l' asc = ok True"
    using sorted_fl_chain [OF m(2), of False asc] m(3) by simp
  have dj: "set xs \<inter> set ys = {} \<longrightarrow>
      size_fl l' = length xs + length ys \<and> mset (merge_elems asc xs ys) = mset xs + mset ys"
    using sz by (simp add: mset_merge_elems length_merge_elems)
  show ?thesis
    by (intro exI [of _ h'] exI [of _ l'] exI [of _ ms] exI [of _ cs] conjI
        m(1) m(2) n ss fl tl sz so dj)
qed

text \<open>
  Two instances: \<open>[2]\<close> merged into \<open>[1, 3]\<close>, which have no common element, and
  \<open>[1, 2]\<close> merged into \<open>[1, 3]\<close>, where the receiver keeps its own node for the element 1.
\<close>

theorem merge_takes_equal_heads_once_witness:
  "(\<exists>h1 l h l2. from_elems (empty_heap (0 :: int)) [1, 3] = Inr (h1, l) \<and>
     from_elems h1 [2] = Inr (h, l2) \<and>
     (\<exists>h' l'. merge False h l l2 True = ok (h', l') \<and> to_list False h' l' = ok [1, 2, 3] \<and>
        size_fl l' = 3 \<and> sorted_fl False h' l' True = ok True)) \<and>
   (\<exists>h1 l h l2 as. from_elems (empty_heap (0 :: int)) [1, 3] = Inr (h1, l) \<and>
     from_elems h1 [1, 2] = Inr (h, l2) \<and> chain h l as \<and>
     (\<exists>h' l' ms. merge False h l l2 True = ok (h', l') \<and> chain h' l' ms \<and>
        set as \<subseteq> set ms \<and> filter (\<lambda>a. a \<in> set as) ms = as \<and>
        to_list False h' l' = ok [1, 2, 3] \<and> size_fl l' = 3))"
proof
  obtain h1 l h l2 as bs where b: "from_elems (empty_heap (0 :: int)) [1, 3] = Inr (h1, l)"
    "from_elems h1 [2] = Inr (h, l2)" "chain h l as" "chain h l2 bs"
    "map (data_at h) as = [1, 3]" "map (data_at h) bs = [2]"
    by (rule two_lists)
  have o: "in_order True [1, 3 :: int]" "in_order True [2 :: int]"
    by (simp_all add: in_order_def)
  from merge_takes_equal_heads_once [OF b(3,4) b(5) [symmetric] b(6) [symmetric] o]
  obtain h' l' where "merge False h l l2 True = ok (h', l')"
    "to_list False h' l' = ok (merge_elems True [1, 3] [2])"
    "size_fl l' = length (merge_elems True [1, 3 :: int] [2])"
    "sorted_fl False h' l' True = ok True"
    by blast
  then have "\<exists>h' l'. merge False h l l2 True = ok (h', l') \<and> to_list False h' l' = ok [1, 2, 3] \<and>
        size_fl l' = 3 \<and> sorted_fl False h' l' True = ok True"
    by simp
  with b(1,2) show "\<exists>h1 l h l2. from_elems (empty_heap (0 :: int)) [1, 3] = Inr (h1, l) \<and>
     from_elems h1 [2] = Inr (h, l2) \<and>
     (\<exists>h' l'. merge False h l l2 True = ok (h', l') \<and> to_list False h' l' = ok [1, 2, 3] \<and>
        size_fl l' = 3 \<and> sorted_fl False h' l' True = ok True)"
    by blast
next
  obtain h1 l h l2 as bs where b: "from_elems (empty_heap (0 :: int)) [1, 3] = Inr (h1, l)"
    "from_elems h1 [1, 2] = Inr (h, l2)" "chain h l as" "chain h l2 bs"
    "map (data_at h) as = [1, 3]" "map (data_at h) bs = [1, 2]"
    by (rule two_lists)
  have o: "in_order True [1, 3 :: int]" "in_order True [1, 2 :: int]"
    by (simp_all add: in_order_def)
  from merge_takes_equal_heads_once [OF b(3,4) b(5) [symmetric] b(6) [symmetric] o]
  obtain h' l' ms where "merge False h l l2 True = ok (h', l')" "chain h' l' ms"
    "set as \<subseteq> set ms" "filter (\<lambda>a. a \<in> set as) ms = as"
    "to_list False h' l' = ok (merge_elems True [1, 3] [1, 2])"
    "size_fl l' = length (merge_elems True [1, 3 :: int] [1, 2])"
    by blast
  then have "\<exists>h' l' ms. merge False h l l2 True = ok (h', l') \<and> chain h' l' ms \<and>
        set as \<subseteq> set ms \<and> filter (\<lambda>a. a \<in> set as) ms = as \<and>
        to_list False h' l' = ok [1, 2, 3] \<and> size_fl l' = 3"
    by auto
  with b(1,2,3) show "\<exists>h1 l h l2 as. from_elems (empty_heap (0 :: int)) [1, 3] = Inr (h1, l) \<and>
     from_elems h1 [1, 2] = Inr (h, l2) \<and> chain h l as \<and>
     (\<exists>h' l' ms. merge False h l l2 True = ok (h', l') \<and> chain h' l' ms \<and>
        set as \<subseteq> set ms \<and> filter (\<lambda>a. a \<in> set as) ms = as \<and>
        to_list False h' l' = ok [1, 2, 3] \<and> size_fl l' = 3)"
    by blast
qed

lemmas eval_merge = merge_def merge_loops_def merge_loop1.simps merge_loop2.simps in_range_def
  take_node_def copy_list_def copy_loop.simps ensure_sorted_def sorted_fl_def sorted_loop.simps
  destroy_def clear_def erase_after_def erase_after_loop.simps erase_walk.simps

text \<open>
  C2 as stated fails on the receiver \<open>[1]\<close> and the argument \<open>[1]\<close>: after
  \<^verbatim>\<open>merge\<close> the receiver is \<open>[1]\<close> with \<^verbatim>\<open>size_\<close> 1, not a list of size 2 with both elements.
  Merging \<open>[1, 2, 3, 4, 7, 10]\<close> into \<open>[1, 7, 9, 1024]\<close> gives 8 elements, with one 1 and one 7.
\<close>

theorem merge_drops_equal_head_of_argument:
  "on_list 0 [1 :: int] (\<lambda>h1 l.
     obnd (Some (from_elems h1 [1])) (\<lambda>(h, l2).
     obnd (merge False h l l2 True) (\<lambda>(h', l').
     obnd (to_list False h' l') (\<lambda>xs. ok (xs, size_fl l')))))
   = ok ([1], 1)
   \<and> on_list 0 [1, 7, 9, 1024 :: int] (\<lambda>h1 l.
     obnd (Some (from_elems h1 [1, 2, 3, 4, 7, 10])) (\<lambda>(h, l2).
     obnd (merge False h l l2 True) (\<lambda>(h', l').
     obnd (to_list False h' l') (\<lambda>xs. ok (xs, size_fl l')))))
   = ok ([1, 2, 3, 4, 7, 9, 10, 1024], 8)"
  by (simp add: eval_defs eval_merge)

text \<open>
  When \<^verbatim>\<open>NDEBUG\<close> is defined, the destructor of the local copy deletes the nodes it reaches
  from the copy's first node, and these now belong to the receiver: after merging \<open>[1, 3]\<close>
  into \<open>[2]\<close>, reading the receiver is an access to a deleted node.
\<close>

theorem merge_fast_build_deletes_linked_nodes:
  "on_list 0 [2 :: int] (\<lambda>h1 l.
     obnd (Some (from_elems h1 [1, 3])) (\<lambda>(h, l2).
     obnd (merge True h l l2 True) (\<lambda>(h', l'). to_list True h' l')))
   = Some (Inl Invalid_Access)"
  by (simp add: eval_defs eval_merge)

end
